theory Spec2Isabelle
  imports Complex_Main "HOL-Library.Word" "HOL-Library.Signed_Division" "HOL-Library.Multiset"
    "HOL-Library.Log_Nat"
begin

section \<open>The orientation-field refinement of orient.cc\<close>

text \<open>
  The theory embeds the refinement engine of \<^verbatim>\<open>orient.cc\<close>: the Gaussian kernel, the
  bilateral weighting, the weighted magnitude mean, the circular mean of angles, the
  per-cell update, one sweep over the grid and the loop of \<^verbatim>\<open>main\<close>.

  Numbers. The C++ \<^verbatim>\<open>float\<close> and \<^verbatim>\<open>double\<close> values are modelled by \<open>real\<close>: every
  operation is exact, there is no rounding, no overflow and no underflow, and the
  constant \<^verbatim>\<open>PI\<close> (the double nearest to \<open>\<pi>\<close>) is \<open>pi\<close>. A division whose divisor is
  zero, which in IEEE arithmetic yields a NaN or an infinity, has no real value: it is
  the error \<open>NonFinite\<close>, and the run modelled ends there, whereas the program goes on
  with the NaN in the cell. C++ \<^verbatim>\<open>int\<close> is \<open>int\<close> (grid indices stay far from the 32-bit
  bounds) and \<^verbatim>\<open>uchar\<close> is \<open>8 word\<close>.

  Errors. A failed \<^verbatim>\<open>assert\<close> is \<open>AssertionFailed\<close>, a read of an empty vector
  \<open>OutOfRange\<close>, the integer remainder by zero \<open>DivisionByZero\<close>; functions that can fail
  return \<open>error + 'a\<close>.
\<close>

subsection \<open>Data model\<close>

type_synonym Vec2i = "int \<times> int"
type_synonym Vec3b = "8 word \<times> 8 word \<times> 8 word"

text \<open>\<^verbatim>\<open>cv::Mat\<close> of colours, used only through \<^verbatim>\<open>at<Vec3b>(row, col)\<close>.\<close>

type_synonym Mat = "int \<Rightarrow> int \<Rightarrow> Vec3b"

record Pixel =
  position :: Vec2i
  cluster :: int
  dx :: real
  dy :: real
  angle :: real
  magnitude :: real
  weight :: real

type_synonym PixelMap = "Pixel list list"

datatype error = AssertionFailed | OutOfRange | NonFinite | DivisionByZero

definition PI :: real where
  "PI = pi"

subsection \<open>OpenCV vector arithmetic used by the program\<close>

text \<open>\<^verbatim>\<open>Vec2i - Vec2i\<close> and \<^verbatim>\<open>norm\<close> of a \<^verbatim>\<open>Vec2i\<close> (the Euclidean norm, a double).\<close>

definition sub2i :: "Vec2i \<Rightarrow> Vec2i \<Rightarrow> Vec2i" where
  "sub2i a b = (fst a - fst b, snd a - snd b)"

definition norm2i :: "Vec2i \<Rightarrow> real" where
  "norm2i v = sqrt (real_of_int (fst v * fst v + snd v * snd v))"

text \<open>
  \<^verbatim>\<open>Vec3b - Vec3b\<close> is computed per channel with \<^verbatim>\<open>saturate_cast<uchar>\<close>: a negative
  difference becomes 0.
\<close>

definition sat_sub :: "8 word \<Rightarrow> 8 word \<Rightarrow> 8 word" where
  "sat_sub a b = (if a < b then 0 else a - b)"

definition sub3b :: "Vec3b \<Rightarrow> Vec3b \<Rightarrow> Vec3b" where
  "sub3b a b = (case a of (a0, a1, a2) \<Rightarrow> case b of (b0, b1, b2) \<Rightarrow>
     (sat_sub a0 b0, sat_sub a1 b1, sat_sub a2 b2))"

definition norm3b :: "Vec3b \<Rightarrow> real" where
  "norm3b v = (case v of (v0, v1, v2) \<Rightarrow>
     sqrt (real (unat v0 * unat v0 + unat v1 * unat v1 + unat v2 * unat v2)))"

subsection \<open>Gaussian kernel\<close>

record GaussianFilter =
  sigma :: real
  miu :: real

text \<open>\<^verbatim>\<open>GaussianFilter::operator()\<close>.\<close>

definition gaussian :: "GaussianFilter \<Rightarrow> real \<Rightarrow> real" where
  "gaussian g x = exp (- 0.5 * ((x - miu g) / sigma g) ^ 2) / (sigma g * sqrt (2 * PI))"

definition spatialFilter :: GaussianFilter where
  "spatialFilter = \<lparr>sigma = 2, miu = 0\<rparr>"

definition colorFilter :: GaussianFilter where
  "colorFilter = \<lparr>sigma = 10, miu = 0\<rparr>"

subsection \<open>Bilateral weighting\<close>

definition bilateral_weight :: "Vec2i \<Rightarrow> Mat \<Rightarrow> Pixel \<Rightarrow> real" where
  "bilateral_weight centerPosition color_image neighbor =
     (let center_color = color_image (fst centerPosition) (snd centerPosition);
          neighbor_color = color_image (fst (position neighbor)) (snd (position neighbor));
          spatial_distance = norm2i (sub2i centerPosition (position neighbor));
          color_distance = norm3b (sub3b center_color neighbor_color)
      in gaussian spatialFilter spatial_distance * gaussian colorFilter color_distance)"

text \<open>The loop of \<^verbatim>\<open>bilateral_filter\<close> writes the weight of every neighbour in turn.\<close>

definition bilateral_filter :: "Vec2i \<Rightarrow> Pixel list \<Rightarrow> Mat \<Rightarrow> Pixel list" where
  "bilateral_filter centerPosition neighbors color_image =
     map (\<lambda>n. n\<lparr>weight := bilateral_weight centerPosition color_image n\<rparr>) neighbors"

subsection \<open>Weighted magnitude mean\<close>

text \<open>The loop of \<^verbatim>\<open>interpolate_magnitude\<close>; the state is
  \<open>(sumWeightedMagnitudes, sumWeights)\<close>.\<close>

fun magnitude_sums :: "Pixel list \<Rightarrow> real \<times> real \<Rightarrow> real \<times> real" where
  "magnitude_sums [] acc = acc"
| "magnitude_sums (n # ns) (sumWeightedMagnitudes, sumWeights) =
     magnitude_sums ns (sumWeightedMagnitudes + weight n * magnitude n, sumWeights + weight n)"

definition interpolate_magnitude :: "Pixel list \<Rightarrow> error + real" where
  "interpolate_magnitude neighbors =
     (case magnitude_sums neighbors (0, 0) of (sumWeightedMagnitudes, sumWeights) \<Rightarrow>
        if sumWeights = 0 then Inl NonFinite
        else Inr (sumWeightedMagnitudes / sumWeights))"

subsection \<open>Circular mean of angles\<close>

text \<open>
  \<^verbatim>\<open>std::sort\<close> with \<^verbatim>\<open>comparePixelByAngle\<close>: ascending angles. \<^verbatim>\<open>std::sort\<close> leaves the
  order of pixels with equal angles open; the model takes the stable order. The result of
  \<^verbatim>\<open>interpolate_angle\<close> is the same for every order (lemma \<open>interpolate_angle_mset\<close>).
\<close>

definition sort_by_angle :: "Pixel list \<Rightarrow> Pixel list" where
  "sort_by_angle neighbors = sort_key angle neighbors"

text \<open>The first loop of \<^verbatim>\<open>interpolate_angle\<close>, from index \<open>i\<close> on; it returns \<open>minIndex\<close>.\<close>

function find_split :: "Pixel list \<Rightarrow> nat \<Rightarrow> real \<Rightarrow> nat \<Rightarrow> nat" where
  "find_split neighbors i minDiff minIndex =
     (if i < length neighbors then
        (let diff = angle (neighbors ! (i - 1)) + PI - angle (neighbors ! i)
         in if diff < minDiff then find_split neighbors (i + 1) diff i
            else find_split neighbors (i + 1) minDiff minIndex)
      else minIndex)"
  by pat_completeness auto
termination
  by (relation "measure (\<lambda>(neighbors, i, minDiff, minIndex). length neighbors - i)") auto

declare find_split.simps [simp del]

text \<open>The second loop, from index \<open>i\<close> on; the state is \<open>(avgAngle, sumMagWeights)\<close>.\<close>

function angle_sums :: "Pixel list \<Rightarrow> nat \<Rightarrow> nat \<Rightarrow> real \<times> real \<Rightarrow> real \<times> real" where
  "angle_sums neighbors minIndex i (avgAngle, sumMagWeights) =
     (if i < length neighbors then
        (let magWeight = weight (neighbors ! i) * magnitude (neighbors ! i)
         in if i < minIndex
            then angle_sums neighbors minIndex (i + 1)
                   (avgAngle + (angle (neighbors ! i) + PI) * magWeight, sumMagWeights + magWeight)
            else angle_sums neighbors minIndex (i + 1)
                   (avgAngle + angle (neighbors ! i) * magWeight, sumMagWeights + magWeight))
      else (avgAngle, sumMagWeights))"
  by pat_completeness auto
termination
  by (relation "measure (\<lambda>(neighbors, minIndex, i, acc). length neighbors - i)") auto

declare angle_sums.simps [simp del]

text \<open>
  \<^verbatim>\<open>interpolate_angle\<close>. \<^verbatim>\<open>neighbors.back()\<close> and \<^verbatim>\<open>neighbors[0]\<close> of an empty vector
  are reads out of range.
\<close>

definition interpolate_angle :: "Pixel list \<Rightarrow> error + real" where
  "interpolate_angle neighbors0 =
     (let neighbors = sort_by_angle neighbors0
      in if neighbors = [] then Inl OutOfRange
         else
           let minDiff = angle (last neighbors) - angle (neighbors ! 0);
               minIndex = find_split neighbors 1 minDiff 0
           in case angle_sums neighbors minIndex 0 (0, 0) of (avgAngle, sumMagWeights) \<Rightarrow>
                if sumMagWeights = 0 then Inl NonFinite
                else
                  let avgAngle = avgAngle / sumMagWeights
                  in if avgAngle \<ge> PI / 2 then Inr (avgAngle - PI) else Inr avgAngle)"

subsection \<open>Per-cell update\<close>

text \<open>\<^verbatim>\<open>pixel_map[r][c]\<close> and the write of one cell. A read outside a vector is undefined
  behaviour in C++; the theorems below are about rectangular maps and cells inside them,
  where every read of \<^verbatim>\<open>updateCell\<close> is inside (the window is clipped to the map).\<close>

definition at_px :: "PixelMap \<Rightarrow> int \<Rightarrow> int \<Rightarrow> Pixel" where
  "at_px pixel_map r c = pixel_map ! nat r ! nat c"

definition set_px :: "PixelMap \<Rightarrow> int \<Rightarrow> int \<Rightarrow> Pixel \<Rightarrow> PixelMap" where
  "set_px pixel_map r c p = pixel_map[nat r := (pixel_map ! nat r)[nat c := p] ]"

text \<open>The double loop of \<^verbatim>\<open>updateCell\<close> that fills \<^verbatim>\<open>qualified_neighbors\<close>, row by row.
  \<^verbatim>\<open>k/2\<close> is the division of C++, which truncates.\<close>

definition qualified_neighbors ::
  "int \<Rightarrow> int \<Rightarrow> int \<Rightarrow> PixelMap \<Rightarrow> PixelMap \<Rightarrow> bool \<Rightarrow> Pixel list" where
  "qualified_neighbors r c k pixel_map old_pixel_map ignore_mag =
     (let rows = int (length pixel_map);
          cols = int (length (pixel_map ! 0));
          leftMost = max 0 (c - k sdiv 2);
          rightMost = min (cols - 1) (c + k sdiv 2);
          upMost = max 0 (r - k sdiv 2);
          downMost = min (rows - 1) (r + k sdiv 2)
      in concat (map (\<lambda>rr. concat (map (\<lambda>cc.
           if cluster (at_px pixel_map rr cc) = cluster (at_px pixel_map r c)
              \<and> (ignore_mag \<or> magnitude (at_px old_pixel_map rr cc) \<ge> magnitude (at_px old_pixel_map r c))
           then [at_px old_pixel_map rr cc] else [])
         [leftMost..rightMost])) [upMost..downMost]))"

definition updateCell ::
  "int \<Rightarrow> int \<Rightarrow> int \<Rightarrow> PixelMap \<Rightarrow> PixelMap \<Rightarrow> Mat \<Rightarrow> bool \<Rightarrow> error + PixelMap" where
  "updateCell r c k pixel_map old_pixel_map color_image ignore_mag =
     (if length pixel_map = 0 then Inl AssertionFailed
      else
        let qualified = qualified_neighbors r c k pixel_map old_pixel_map ignore_mag
        in if \<not> length qualified \<ge> 1 then Inl AssertionFailed
           else if length qualified = 1 then Inr pixel_map
           else
             let weighted = bilateral_filter (r, c) qualified color_image
             in case interpolate_magnitude weighted of
                  Inl e \<Rightarrow> Inl e
                | Inr m \<Rightarrow>
                    (case interpolate_angle weighted of
                       Inl e \<Rightarrow> Inl e
                     | Inr a \<Rightarrow>
                         Inr (set_px pixel_map r c
                                ((at_px pixel_map r c)\<lparr>magnitude := m, angle := a\<rparr>))))"

subsection \<open>One sweep\<close>

text \<open>The inner loop of \<^verbatim>\<open>iterate\<close> over the columns of row \<open>r\<close>, and the outer loop over
  the rows; \<open>pixel_map\<close> is the live map, \<open>old_pixel_map\<close> the copy made before the loops.\<close>

fun iterate_cols ::
  "int \<Rightarrow> int list \<Rightarrow> int \<Rightarrow> PixelMap \<Rightarrow> PixelMap \<Rightarrow> Mat \<Rightarrow> bool \<Rightarrow> error + PixelMap" where
  "iterate_cols r [] k pixel_map old_pixel_map color_image ignore_mag = Inr pixel_map"
| "iterate_cols r (c # cs) k pixel_map old_pixel_map color_image ignore_mag =
     (case updateCell r c k pixel_map old_pixel_map color_image ignore_mag of
        Inl e \<Rightarrow> Inl e
      | Inr pixel_map' \<Rightarrow> iterate_cols r cs k pixel_map' old_pixel_map color_image ignore_mag)"

fun iterate_rows ::
  "int list \<Rightarrow> int list \<Rightarrow> int \<Rightarrow> PixelMap \<Rightarrow> PixelMap \<Rightarrow> Mat \<Rightarrow> bool \<Rightarrow> error + PixelMap" where
  "iterate_rows [] cs k pixel_map old_pixel_map color_image ignore_mag = Inr pixel_map"
| "iterate_rows (r # rs) cs k pixel_map old_pixel_map color_image ignore_mag =
     (case iterate_cols r cs k pixel_map old_pixel_map color_image ignore_mag of
        Inl e \<Rightarrow> Inl e
      | Inr pixel_map' \<Rightarrow> iterate_rows rs cs k pixel_map' old_pixel_map color_image ignore_mag)"

definition iterate :: "int \<Rightarrow> PixelMap \<Rightarrow> Mat \<Rightarrow> bool \<Rightarrow> error + PixelMap" where
  "iterate k pixel_map color_image ignore_mag =
     (if length pixel_map = 0 then Inl AssertionFailed
      else
        let rows = int (length pixel_map);
            cols = int (length (pixel_map ! 0));
            old_pixel_map = pixel_map
        in iterate_rows [0..rows - 1] [0..cols - 1] k pixel_map old_pixel_map color_image ignore_mag)"

subsection \<open>Construction of the pixel map\<close>

text \<open>
  \<^verbatim>\<open>construct_pixel_map\<close>. The image and the OpenCV calls are outside the program: the
  model takes the image size, the two derivative images of \<^verbatim>\<open>Scharr\<close> and the image
  \<^verbatim>\<open>quotient\<close> of \<^verbatim>\<open>divide\<close> (any real values; it is named \<open>quot\<close> here) as parameters,
  with the cluster labels that \<^verbatim>\<open>load_matrix_from_file\<close> returns (it asserts a positive
  number of rows and columns). \<^verbatim>\<open>magnitude\<close> of OpenCV is the Euclidean norm of the two
  derivatives. \<^verbatim>\<open>Pixel()\<close> sets every field to zero, so the weight starts at 0.
\<close>

type_synonym Matf = "int \<Rightarrow> int \<Rightarrow> real"

type_synonym IndexCluster = "int list list"

definition cv_magnitude :: "Matf \<Rightarrow> Matf \<Rightarrow> Matf" where
  "cv_magnitude x y r c = sqrt (x r c * x r c + y r c * y r c)"

text \<open>
  The relabelling of clusters: \<^verbatim>\<open>new_cluster\<close> is the \<^verbatim>\<open>unordered_map\<close>, kept as an
  association list in insertion order; an unseen label gets the size of the map before
  the insertion (the order of evaluation of C++17), and \<^verbatim>\<open>operator[]\<close> of a missing key
  would give 0.
\<close>

definition remap_cluster :: "(int \<times> int) list \<Rightarrow> int \<Rightarrow> (int \<times> int) list \<times> int" where
  "remap_cluster new_cluster old_cluster =
     (let new_cluster' =
            (if map_of new_cluster old_cluster = None
             then new_cluster @ [(old_cluster, int (length new_cluster))]
             else new_cluster)
      in (new_cluster', case map_of new_cluster' old_cluster of Some v \<Rightarrow> v | None \<Rightarrow> 0))"

text \<open>The loop over the columns of row \<open>r\<close>, and the loop over the rows.\<close>

fun construct_cols ::
  "int \<Rightarrow> int list \<Rightarrow> Matf \<Rightarrow> Matf \<Rightarrow> Matf \<Rightarrow> Matf \<Rightarrow> IndexCluster \<Rightarrow> (int \<times> int) list
     \<Rightarrow> Pixel list \<times> (int \<times> int) list" where
  "construct_cols r [] grad_x grad_y quot magnitudes index_cluster new_cluster = ([], new_cluster)"
| "construct_cols r (c # cs) grad_x grad_y quot magnitudes index_cluster new_cluster =
     (let old_cluster = index_cluster ! nat r ! nat c;
          (new_cluster', cl) = remap_cluster new_cluster old_cluster;
          p = \<lparr>position = (r, c), cluster = cl, dx = grad_x r c, dy = grad_y r c,
               angle = arctan (quot r c), magnitude = magnitudes r c, weight = 0\<rparr>;
          (ps, new_cluster'') =
            construct_cols r cs grad_x grad_y quot magnitudes index_cluster new_cluster'
      in (p # ps, new_cluster''))"

fun construct_rows ::
  "int list \<Rightarrow> int list \<Rightarrow> Matf \<Rightarrow> Matf \<Rightarrow> Matf \<Rightarrow> Matf \<Rightarrow> IndexCluster \<Rightarrow> (int \<times> int) list
     \<Rightarrow> PixelMap" where
  "construct_rows [] cs grad_x grad_y quot magnitudes index_cluster new_cluster = []"
| "construct_rows (r # rs) cs grad_x grad_y quot magnitudes index_cluster new_cluster =
     (let (row, new_cluster') =
            construct_cols r cs grad_x grad_y quot magnitudes index_cluster new_cluster
      in row # construct_rows rs cs grad_x grad_y quot magnitudes index_cluster new_cluster')"

definition construct_pixel_map ::
  "int \<Rightarrow> int \<Rightarrow> Matf \<Rightarrow> Matf \<Rightarrow> Matf \<Rightarrow> IndexCluster \<Rightarrow> error + PixelMap" where
  "construct_pixel_map rows cols grad_x grad_y quot index_cluster =
     (let magnitudes = cv_magnitude grad_x grad_y
      in if index_cluster = [] \<or> index_cluster ! 0 = [] then Inl AssertionFailed
         else if \<not> (rows = int (length index_cluster) \<and> cols = int (length (index_cluster ! 0)))
         then Inl AssertionFailed
         else Inr (construct_rows [0..rows - 1] [0..cols - 1]
                     grad_x grad_y quot magnitudes index_cluster []))"

subsection \<open>The loop of main\<close>

text \<open>
  The loop of \<^verbatim>\<open>main\<close> from index \<open>i\<close> on. Saving the images does not touch the map and is
  left out, but its test \<^verbatim>\<open>(i+1) % save_step\<close> is kept: with \<^verbatim>\<open>save_step\<close> zero the
  program stops there.
\<close>

function main_loop :: "int \<Rightarrow> int \<Rightarrow> int \<Rightarrow> PixelMap \<Rightarrow> Mat \<Rightarrow> error + PixelMap" where
  "main_loop i iteration_times save_step pixel_map color_image =
     (if i < iteration_times then
        (case (if i < 20 then iterate 7 pixel_map color_image False
               else iterate 7 pixel_map color_image True) of
           Inl e \<Rightarrow> Inl e
         | Inr pixel_map' \<Rightarrow>
             if save_step = 0 then Inl DivisionByZero
             else main_loop (i + 1) iteration_times save_step pixel_map' color_image)
      else Inr pixel_map)"
  by pat_completeness auto
termination
  by (relation "measure (\<lambda>(i, iteration_times, save_step, pixel_map, color_image).
        nat (iteration_times - i))") auto

declare main_loop.simps [simp del]

section \<open>The two means in binary floating-point arithmetic\<close>

text \<open>
  The results about single values of the two means depend on the rounding of every
  operation, so \<^verbatim>\<open>interpolate_magnitude\<close> and \<^verbatim>\<open>interpolate_angle\<close> are embedded a second
  time, with the arithmetic of the program: \<^verbatim>\<open>float\<close> is IEEE binary32, \<^verbatim>\<open>double\<close> is
  binary64, every operation is rounded to nearest, ties to even, in the type in which C++
  evaluates it (an operation with a \<^verbatim>\<open>double\<close> operand is evaluated in \<^verbatim>\<open>double\<close>, and the
  assignment to a \<^verbatim>\<open>float\<close> rounds again; no fused multiply-add, no extended precision).

  A value is a finite number, an infinity or a NaN. The sign of zero is not modelled: the
  accumulators of the two means start at \<open>+0\<close> and a sum that starts at \<open>+0\<close> is never \<open>-0\<close>,
  so every zero divisor of these functions is \<open>+0\<close>. The fields of the pixels handed to
  the two means hold finite values.
\<close>

subsection \<open>Rounding\<close>

datatype flt = Fin real | PInf | NInf | NaN

definition pow2 :: "int \<Rightarrow> real" where
  "pow2 k = (if 0 \<le> k then 2 ^ nat k else 1 / 2 ^ nat (- k))"

text \<open>The exponent of a number other than zero: \<open>2\<^sup>e \<le> \<bar>x\<bar> < 2\<^sup>e\<^sup>+\<^sup>1\<close>
  (lemma \<open>ilog2_bounds\<close>).\<close>

definition ilog2 :: "real \<Rightarrow> int" where
  "ilog2 x = (if 1 \<le> \<bar>x\<bar> then int (floorlog 2 (nat \<lfloor>\<bar>x\<bar>\<rfloor>)) - 1
              else - int (floorlog 2 (nat (\<lceil>1 / \<bar>x\<bar>\<rceil> - 1))))"

text \<open>The nearest integer, the even one of two nearest.\<close>

definition rne :: "real \<Rightarrow> int" where
  "rne y = (let n = \<lfloor>y\<rfloor>; f = y - real_of_int n
            in if f < 1 / 2 then n
               else if 1 / 2 < f then n + 1
               else if even n then n else n + 1)"

text \<open>
  Rounding to the format with \<open>p\<close> significant bits and largest exponent \<open>emax\<close> (the
  smallest exponent of a normal number is \<open>1 - emax\<close>; below it the spacing stays that of
  the smallest normal numbers). A rounded value of magnitude \<open>2\<^sup>e\<^sup>m\<^sup>a\<^sup>x\<^sup>+\<^sup>1\<close> or more is an
  infinity.
\<close>

definition round_fp :: "nat \<Rightarrow> int \<Rightarrow> real \<Rightarrow> flt" where
  "round_fp p emax x =
     (if x = 0 then Fin 0
      else let q = max (ilog2 x) (1 - emax) - int p + 1;
               y = real_of_int (rne (x / pow2 q)) * pow2 q
           in if pow2 (emax + 1) \<le> \<bar>y\<bar> then (if 0 < x then PInf else NInf) else Fin y)"

definition rnd32 :: "real \<Rightarrow> flt" where
  "rnd32 = round_fp 24 127"

definition rnd64 :: "real \<Rightarrow> flt" where
  "rnd64 = round_fp 53 1023"

subsection \<open>Operations\<close>

text \<open>
  The operations take the rounding of the type in which they are evaluated. \<open>to_float\<close> is
  the conversion of a \<^verbatim>\<open>double\<close> to \<^verbatim>\<open>float\<close>; the conversion of a \<^verbatim>\<open>float\<close> to \<^verbatim>\<open>double\<close>
  changes nothing.
\<close>

fun fneg :: "flt \<Rightarrow> flt" where
  "fneg (Fin x) = Fin (- x)"
| "fneg PInf = NInf"
| "fneg NInf = PInf"
| "fneg NaN = NaN"

fun fadd :: "(real \<Rightarrow> flt) \<Rightarrow> flt \<Rightarrow> flt \<Rightarrow> flt" where
  "fadd rnd (Fin x) (Fin y) = rnd (x + y)"
| "fadd rnd NaN b = NaN"
| "fadd rnd a NaN = NaN"
| "fadd rnd PInf NInf = NaN"
| "fadd rnd NInf PInf = NaN"
| "fadd rnd PInf b = PInf"
| "fadd rnd NInf b = NInf"
| "fadd rnd a PInf = PInf"
| "fadd rnd a NInf = NInf"

definition fsub :: "(real \<Rightarrow> flt) \<Rightarrow> flt \<Rightarrow> flt \<Rightarrow> flt" where
  "fsub rnd a b = fadd rnd a (fneg b)"

text \<open>The sign of a value that is not a NaN: \<open>1\<close>, \<open>0\<close> or \<open>-1\<close>.\<close>

fun fsgn :: "flt \<Rightarrow> real" where
  "fsgn (Fin x) = sgn x"
| "fsgn PInf = 1"
| "fsgn NInf = - 1"
| "fsgn NaN = 0"

fun fmul :: "(real \<Rightarrow> flt) \<Rightarrow> flt \<Rightarrow> flt \<Rightarrow> flt" where
  "fmul rnd (Fin x) (Fin y) = rnd (x * y)"
| "fmul rnd NaN b = NaN"
| "fmul rnd a NaN = NaN"
| "fmul rnd a b =
     (if fsgn a * fsgn b = 0 then NaN else if 0 < fsgn a * fsgn b then PInf else NInf)"

fun fdiv :: "(real \<Rightarrow> flt) \<Rightarrow> flt \<Rightarrow> flt \<Rightarrow> flt" where
  "fdiv rnd (Fin x) (Fin y) =
     (if y = 0 then (if x = 0 then NaN else if 0 < x then PInf else NInf) else rnd (x / y))"
| "fdiv rnd NaN b = NaN"
| "fdiv rnd a NaN = NaN"
| "fdiv rnd (Fin x) b = Fin 0"
| "fdiv rnd a (Fin y) = (if 0 \<le> fsgn a * y then a else fneg a)"
| "fdiv rnd a b = NaN"

fun fless :: "flt \<Rightarrow> flt \<Rightarrow> bool" where
  "fless (Fin x) (Fin y) = (x < y)"
| "fless NaN b = False"
| "fless a NaN = False"
| "fless a NInf = False"
| "fless PInf b = False"
| "fless a b = True"

definition fge :: "flt \<Rightarrow> flt \<Rightarrow> bool" where
  "fge a b = (a \<noteq> NaN \<and> b \<noteq> NaN \<and> \<not> fless a b)"

fun to_float :: "flt \<Rightarrow> flt" where
  "to_float (Fin x) = rnd32 x"
| "to_float a = a"

declare fneg.simps [simp del] fadd.simps [simp del] fmul.simps [simp del] fdiv.simps [simp del]
  to_float.simps [simp del]

text \<open>The constant \<^verbatim>\<open>PI\<close> of the program: the binary64 value of the literal
  \<^verbatim>\<open>3.14159265358979323846\<close> (lemma \<open>PI_double_literal\<close>).\<close>

definition PI_double :: real where
  "PI_double = 884279719003555 / 2 ^ 48"

subsection \<open>Weighted magnitude mean\<close>

text \<open>The loop of \<^verbatim>\<open>interpolate_magnitude\<close>; the state is
  \<open>(sumWeightedMagnitudes, sumWeights)\<close>, both \<^verbatim>\<open>float\<close>.\<close>

fun magnitude_sums32 :: "Pixel list \<Rightarrow> flt \<times> flt \<Rightarrow> flt \<times> flt" where
  "magnitude_sums32 [] acc = acc"
| "magnitude_sums32 (n # ns) (sumWeightedMagnitudes, sumWeights) =
     magnitude_sums32 ns
       (fadd rnd32 sumWeightedMagnitudes (fmul rnd32 (Fin (weight n)) (Fin (magnitude n))),
        fadd rnd32 sumWeights (Fin (weight n)))"

definition interpolate_magnitude32 :: "Pixel list \<Rightarrow> flt" where
  "interpolate_magnitude32 neighbors =
     (case magnitude_sums32 neighbors (Fin 0, Fin 0) of (sumWeightedMagnitudes, sumWeights) \<Rightarrow>
        fdiv rnd32 sumWeightedMagnitudes sumWeights)"

subsection \<open>Circular mean of angles\<close>

text \<open>
  The first loop of \<^verbatim>\<open>interpolate_angle\<close>, from index \<open>i\<close> on. \<^verbatim>\<open>diff\<close> is a \<^verbatim>\<open>float\<close>, its
  initializer is evaluated in \<^verbatim>\<open>double\<close>, since \<^verbatim>\<open>PI\<close> is one.
\<close>

definition span_diff32 :: "Pixel list \<Rightarrow> nat \<Rightarrow> flt" where
  "span_diff32 neighbors i =
     to_float (fsub rnd64 (fadd rnd64 (Fin (angle (neighbors ! (i - 1)))) (Fin PI_double))
                          (Fin (angle (neighbors ! i))))"

function find_split32 :: "Pixel list \<Rightarrow> nat \<Rightarrow> flt \<Rightarrow> nat \<Rightarrow> nat" where
  "find_split32 neighbors i minDiff minIndex =
     (if i < length neighbors then
        (let diff = span_diff32 neighbors i
         in if fless diff minDiff then find_split32 neighbors (i + 1) diff i
            else find_split32 neighbors (i + 1) minDiff minIndex)
      else minIndex)"
  by pat_completeness auto
termination
  by (relation "measure (\<lambda>(neighbors, i, minDiff, minIndex). length neighbors - i)") auto

declare find_split32.simps [simp del]

text \<open>
  One step of the second loop on \<^verbatim>\<open>avgAngle\<close>: the shifted branch is evaluated in
  \<^verbatim>\<open>double\<close> and rounded to \<^verbatim>\<open>float\<close> by the assignment, the other branch in \<^verbatim>\<open>float\<close>.
\<close>

definition add_angle32 :: "bool \<Rightarrow> flt \<Rightarrow> real \<Rightarrow> flt \<Rightarrow> flt" where
  "add_angle32 shifted avgAngle a magWeight =
     (if shifted
      then to_float (fadd rnd64 avgAngle (fmul rnd64 (fadd rnd64 (Fin a) (Fin PI_double)) magWeight))
      else fadd rnd32 avgAngle (fmul rnd32 (Fin a) magWeight))"

text \<open>The second loop, from index \<open>i\<close> on; the state is \<open>(avgAngle, sumMagWeights)\<close>.\<close>

function angle_sums32 :: "Pixel list \<Rightarrow> nat \<Rightarrow> nat \<Rightarrow> flt \<times> flt \<Rightarrow> flt \<times> flt" where
  "angle_sums32 neighbors minIndex i (avgAngle, sumMagWeights) =
     (if i < length neighbors then
        (let magWeight = fmul rnd32 (Fin (weight (neighbors ! i))) (Fin (magnitude (neighbors ! i)))
         in angle_sums32 neighbors minIndex (i + 1)
              (add_angle32 (i < minIndex) avgAngle (angle (neighbors ! i)) magWeight,
               fadd rnd32 sumMagWeights magWeight))
      else (avgAngle, sumMagWeights))"
  by pat_completeness auto
termination
  by (relation "measure (\<lambda>(neighbors, minIndex, i, acc). length neighbors - i)") auto

declare angle_sums32.simps [simp del]

text \<open>The end of \<^verbatim>\<open>interpolate_angle\<close>: the test against \<^verbatim>\<open>PI/2\<close> and the subtraction are
  evaluated in \<^verbatim>\<open>double\<close>.\<close>

definition wrap_angle32 :: "flt \<Rightarrow> flt" where
  "wrap_angle32 avgAngle =
     (if fge avgAngle (fdiv rnd64 (Fin PI_double) (Fin 2))
      then to_float (fsub rnd64 avgAngle (Fin PI_double))
      else avgAngle)"

text \<open>
  \<^verbatim>\<open>interpolate_angle\<close> after its call of \<^verbatim>\<open>std::sort\<close>, on the sorted vector, and the
  whole function. \<^verbatim>\<open>std::sort\<close> leaves the order of pixels with equal angles open, and in
  rounded arithmetic the sums depend on it; the general results below are about
  \<open>interpolate_angle_sorted32\<close> on any vector, so they hold for every such order.
\<close>

definition interpolate_angle_sorted32 :: "Pixel list \<Rightarrow> error + flt" where
  "interpolate_angle_sorted32 neighbors =
     (if neighbors = [] then Inl OutOfRange
      else
        let minDiff = fsub rnd32 (Fin (angle (last neighbors))) (Fin (angle (neighbors ! 0)));
            minIndex = find_split32 neighbors 1 minDiff 0
        in case angle_sums32 neighbors minIndex 0 (Fin 0, Fin 0) of (avgAngle, sumMagWeights) \<Rightarrow>
             Inr (wrap_angle32 (fdiv rnd32 avgAngle sumMagWeights)))"

definition interpolate_angle32 :: "Pixel list \<Rightarrow> error + flt" where
  "interpolate_angle32 neighbors = interpolate_angle_sorted32 (sort_by_angle neighbors)"

section \<open>Specification-side and auxiliary definitions\<close>

subsection \<open>The largest gap, in the words of the specification\<close>

text \<open>
  The specification treats the sorted angles as points on a circle of circumference \<open>\<pi>\<close>.
  \<open>circle_gap as j\<close> is the gap that ends at index \<open>j\<close>: for \<open>j = 0\<close> the wraparound gap
  between the last angle and the first plus \<open>\<pi>\<close>, otherwise the difference to the
  predecessor. \<open>largest_gap_split\<close> is the index right after the largest gap, the first
  one when several gaps are largest.
\<close>

definition circle_gap :: "real list \<Rightarrow> nat \<Rightarrow> real" where
  "circle_gap as j = (if j = 0 then as ! 0 + PI - last as else as ! j - as ! (j - 1))"

definition circle_gaps :: "real list \<Rightarrow> real list" where
  "circle_gaps as = map (circle_gap as) [0..<length as]"

fun first_index :: "real \<Rightarrow> real list \<Rightarrow> nat" where
  "first_index x [] = 0"
| "first_index x (y # ys) = (if x = y then 0 else Suc (first_index x ys))"

definition largest_gap_split :: "real list \<Rightarrow> nat" where
  "largest_gap_split as = first_index (Max (set (circle_gaps as))) (circle_gaps as)"

subsection \<open>Closed forms of the loops of the circular mean\<close>

text \<open>
  The effective weight of a neighbour, the angle that the second loop of
  \<^verbatim>\<open>interpolate_angle\<close> adds at index \<open>i\<close> for the split index \<open>k\<close>, the sum it computes, and
  the split index that the first loop returns on a sorted list. \<open>unwrap_below\<close> is the same
  summand written with a threshold angle instead of an index.
\<close>

definition magWeight :: "Pixel \<Rightarrow> real" where
  "magWeight n = weight n * magnitude n"

definition shifted_angle :: "Pixel list \<Rightarrow> nat \<Rightarrow> nat \<Rightarrow> real" where
  "shifted_angle ns k i = (if i < k then angle (ns ! i) + PI else angle (ns ! i))"

definition shifted_sum :: "Pixel list \<Rightarrow> nat \<Rightarrow> real" where
  "shifted_sum s k = (\<Sum>j = 0..<length s. shifted_angle s k j * magWeight (s ! j))"

definition split_index :: "Pixel list \<Rightarrow> nat" where
  "split_index s = find_split s 1 (angle (last s) - angle (s ! 0)) 0"

definition unwrap_below :: "bool \<Rightarrow> real \<Rightarrow> Pixel \<Rightarrow> real" where
  "unwrap_below shift T p =
     (if shift \<and> angle p < T then angle p + PI else angle p) * magWeight p"

subsection \<open>Well-formed maps\<close>

text \<open>
  A map is rectangular when it has a row and all rows have the length of the first one, as
  \<^verbatim>\<open>construct_pixel_map\<close> builds it; \<open>in_range\<close> holds of the cells of the map. Sweeps keep
  the shape and the cluster ids.
\<close>

definition rect :: "PixelMap \<Rightarrow> bool" where
  "rect pm \<longleftrightarrow> pm \<noteq> [] \<and> (\<forall>row\<in>set pm. length row = length (pm ! 0))"

definition in_range :: "PixelMap \<Rightarrow> int \<Rightarrow> int \<Rightarrow> bool" where
  "in_range pm r c \<longleftrightarrow> 0 \<le> r \<and> r < int (length pm) \<and> 0 \<le> c \<and> c < int (length (pm ! 0))"

definition all_cells :: "PixelMap \<Rightarrow> (int \<times> int) list" where
  "all_cells pm = List.product [0..int (length pm) - 1] [0..int (length (pm ! 0)) - 1]"

definition same_shape :: "PixelMap \<Rightarrow> PixelMap \<Rightarrow> bool" where
  "same_shape pm pm' \<longleftrightarrow> length pm = length pm' \<and> (\<forall>i<length pm. length (pm ! i) = length (pm' ! i))"

definition same_clusters :: "PixelMap \<Rightarrow> PixelMap \<Rightarrow> bool" where
  "same_clusters pm old \<longleftrightarrow>
     (\<forall>r c. in_range old r c \<longrightarrow> cluster (at_px pm r c) = cluster (at_px old r c))"

subsection \<open>The window and the candidates\<close>

text \<open>
  The cells of the clipped window of \<^verbatim>\<open>updateCell\<close> in the order of its two loops, and the
  test of its \<^verbatim>\<open>if\<close>. \<open>new_pixel\<close> is the cell \<open>(r, c)\<close> that \<^verbatim>\<open>updateCell\<close> computes when the
  live map and the copy are both the map \<open>old\<close>; \<open>sweep_cells\<close> is the nested loop of
  \<^verbatim>\<open>iterate\<close> over a list of cells.
\<close>

definition window :: "int \<Rightarrow> int \<Rightarrow> int \<Rightarrow> PixelMap \<Rightarrow> (int \<times> int) list" where
  "window r c k pm =
     List.product
       [max 0 (r - k sdiv 2)..min (int (length pm) - 1) (r + k sdiv 2)]
       [max 0 (c - k sdiv 2)..min (int (length (pm ! 0)) - 1) (c + k sdiv 2)]"

definition qualifies :: "int \<Rightarrow> int \<Rightarrow> PixelMap \<Rightarrow> PixelMap \<Rightarrow> bool \<Rightarrow> int \<times> int \<Rightarrow> bool" where
  "qualifies r c pm old ignore_mag rc =
     (cluster (at_px pm (fst rc) (snd rc)) = cluster (at_px pm r c)
      \<and> (ignore_mag \<or> magnitude (at_px old (fst rc) (snd rc)) \<ge> magnitude (at_px old r c)))"

definition new_pixel :: "int \<Rightarrow> int \<Rightarrow> int \<Rightarrow> PixelMap \<Rightarrow> Mat \<Rightarrow> bool \<Rightarrow> error + Pixel" where
  "new_pixel r c k old img ig =
     (case updateCell r c k old old img ig of Inl e \<Rightarrow> Inl e | Inr q \<Rightarrow> Inr (at_px q r c))"

fun sweep_cells ::
  "(int \<times> int) list \<Rightarrow> int \<Rightarrow> PixelMap \<Rightarrow> PixelMap \<Rightarrow> Mat \<Rightarrow> bool \<Rightarrow> error + PixelMap" where
  "sweep_cells [] k pm old img ig = Inr pm"
| "sweep_cells (rc # cells) k pm old img ig =
     (case updateCell (fst rc) (snd rc) k pm old img ig of
        Inl e \<Rightarrow> Inl e
      | Inr pm' \<Rightarrow> sweep_cells cells k pm' old img ig)"

subsection \<open>Invariants of the field\<close>

text \<open>
  The range of angles that the code keeps, \<open>[- \<pi>/2, \<pi>/2)\<close>, with non-negative magnitudes;
  maps whose magnitudes are all positive; and what the construction gives each pixel.
\<close>

definition pixel_ok :: "Pixel \<Rightarrow> bool" where
  "pixel_ok p \<longleftrightarrow> - PI / 2 \<le> angle p \<and> angle p < PI / 2 \<and> 0 \<le> magnitude p"

definition grid_ok :: "PixelMap \<Rightarrow> bool" where
  "grid_ok pm \<longleftrightarrow> (\<forall>r c. in_range pm r c \<longrightarrow> pixel_ok (at_px pm r c))"

definition grid_pos :: "PixelMap \<Rightarrow> bool" where
  "grid_pos pm \<longleftrightarrow> (\<forall>r c. in_range pm r c \<longrightarrow> 0 < magnitude (at_px pm r c))"

definition fresh_pixel_ok :: "Matf \<Rightarrow> Pixel \<Rightarrow> bool" where
  "fresh_pixel_ok magnitudes p \<longleftrightarrow>
     - PI / 2 < angle p \<and> angle p < PI / 2 \<and> (\<exists>r c. magnitude p = magnitudes r c)"

subsection \<open>Sequences of sweeps\<close>

text \<open>
  \<open>run_sweeps k flags\<close> runs one sweep of window \<open>k\<close> for every flag, in order, each with
  that value of \<open>ignore_mag\<close>. \<open>phase_flags i n\<close> is the schedule of the specification with
  threshold 20 for the sweeps \<open>i\<close> to \<open>n - 1\<close>: sweep \<open>j\<close> ignores the gate exactly when
  \<open>20 \<le> j\<close>. \<open>result_map\<close> reads the map out of a result.
\<close>

fun run_sweeps :: "int \<Rightarrow> bool list \<Rightarrow> PixelMap \<Rightarrow> Mat \<Rightarrow> error + PixelMap" where
  "run_sweeps k [] pixel_map color_image = Inr pixel_map"
| "run_sweeps k (ignore_mag # flags) pixel_map color_image =
     (case iterate k pixel_map color_image ignore_mag of
        Inl e \<Rightarrow> Inl e
      | Inr pixel_map' \<Rightarrow> run_sweeps k flags pixel_map' color_image)"

definition phase_flags :: "int \<Rightarrow> int \<Rightarrow> bool list" where
  "phase_flags i iteration_times = map (\<lambda>j. 20 \<le> j) [i..iteration_times - 1]"

definition result_map :: "error + PixelMap \<Rightarrow> PixelMap" where
  "result_map res = (case res of Inl e \<Rightarrow> [] | Inr pixel_map \<Rightarrow> pixel_map)"

subsection \<open>Two inputs that differ outside one cluster\<close>

text \<open>
  \<open>agree_on cl pm1 pm2 img1 img2\<close>: the two maps have the same shape and the same cluster
  ids; on every cell of cluster \<open>cl\<close> the pixel records are equal, the record carries its own
  position, and the two colour images are equal. Nothing is asked of the angle, the
  magnitude or the colour of the other cells.
\<close>

definition agree_on :: "int \<Rightarrow> PixelMap \<Rightarrow> PixelMap \<Rightarrow> Mat \<Rightarrow> Mat \<Rightarrow> bool" where
  "agree_on cl pm1 pm2 img1 img2 \<longleftrightarrow>
     same_shape pm1 pm2 \<and>
     (\<forall>rc\<in>set (all_cells pm2).
        cluster (at_px pm1 (fst rc) (snd rc)) = cluster (at_px pm2 (fst rc) (snd rc))
        \<and> (cluster (at_px pm2 (fst rc) (snd rc)) = cl \<longrightarrow>
             at_px pm1 (fst rc) (snd rc) = at_px pm2 (fst rc) (snd rc)
             \<and> position (at_px pm2 (fst rc) (snd rc)) = rc
             \<and> img1 (fst rc) (snd rc) = img2 (fst rc) (snd rc)))"

subsection \<open>Concrete inputs\<close>

text \<open>
  A neighbour with a given angle, magnitude and weight; a pixel of the map at a position
  with a cluster, an angle and a magnitude; a uniform colour image; and the small maps on
  which the theorems are instantiated. \<open>flat_grid\<close> is what the construction gives on a
  constant image, \<open>fresh_grid\<close> what it gives for derivatives \<open>(1, 1)\<close>. All maps have one
  row.
\<close>

definition entry :: "real \<Rightarrow> real \<Rightarrow> real \<Rightarrow> Pixel" where
  "entry a m w = \<lparr>position = (0, 0), cluster = 0, dx = 0, dy = 0, angle = a, magnitude = m, weight = w\<rparr>"

definition px :: "int \<Rightarrow> int \<Rightarrow> int \<Rightarrow> real \<Rightarrow> real \<Rightarrow> Pixel" where
  "px r c cl a m = \<lparr>position = (r, c), cluster = cl, dx = 0, dy = 0, angle = a, magnitude = m, weight = 0\<rparr>"

definition gray :: Mat where
  "gray r c = (0, 0, 0)"

definition iso_grid :: PixelMap where
  "iso_grid = [ [px 0 0 0 0 1, px 0 1 1 0 2] ]"

definition pair_grid :: PixelMap where
  "pair_grid = [ [px 0 0 0 0 1, px 0 1 0 0 2] ]"

definition flat_grid :: PixelMap where
  "flat_grid = [ [px 0 0 0 0 0, px 0 1 0 0 0] ]"

definition fresh_grid :: PixelMap where
  "fresh_grid =
     [ [\<lparr>position = (0, 0), cluster = 0, dx = 1, dy = 1, angle = arctan (- 1),
        magnitude = sqrt 2, weight = 0\<rparr>,
       \<lparr>position = (0, 1), cluster = 0, dx = 1, dy = 1, angle = arctan (- 1),
        magnitude = sqrt 2, weight = 0\<rparr>] ]"

definition seam_grid :: PixelMap where
  "seam_grid = [ [px 0 0 0 (89 * PI / 180) 1, px 0 1 0 0 0, px 0 2 0 (- 89 * PI / 180) 1] ]"

definition gate_grid :: PixelMap where
  "gate_grid = [ [px 0 0 0 0 2, px 0 1 1 0 1, px 0 2 0 0 1, px 0 3 1 0 1, px 0 4 0 0 100] ]"

definition left_grid :: PixelMap where
  "left_grid = [ [px 0 0 0 0 1, px 0 1 0 (1 / 2) 2, px 0 2 1 0 3] ]"

definition right_grid :: PixelMap where
  "right_grid = [ [px 0 0 0 0 1, px 0 1 0 (1 / 2) 2, px 0 2 1 1 7] ]"

definition right_image :: Mat where
  "right_image r c = (if c = 2 then (9, 9, 9) else (0, 0, 0))"

subsection \<open>The split index and the mean in binary32, in the words of the specification\<close>

text \<open>
  \<open>spans32 s\<close> lists, for every index \<open>j\<close> of the sorted vector, the value that the first
  loop compares: for \<open>j = 0\<close> the \<^verbatim>\<open>float\<close> difference of the last and the first angle,
  otherwise \<^verbatim>\<open>float\<close> of predecessor \<open>+ PI -\<close> current. It is \<^verbatim>\<open>PI\<close> minus the gap that ends
  at \<open>j\<close>, rounded. \<open>first_least\<close> is the first index of a least element. \<open>circle_gap64\<close>
  is the exact gap on the circle whose circumference is the program's \<^verbatim>\<open>PI\<close>.
\<close>

definition spans32 :: "Pixel list \<Rightarrow> flt list" where
  "spans32 s =
     fsub rnd32 (Fin (angle (last s))) (Fin (angle (s ! 0))) # map (span_diff32 s) [1..<length s]"

definition first_least :: "flt list \<Rightarrow> nat" where
  "first_least xs = length (takeWhile (\<lambda>x. \<exists>y\<in>set xs. fless y x) xs)"

definition circle_gap64 :: "real list \<Rightarrow> nat \<Rightarrow> real" where
  "circle_gap64 as j = (if j = 0 then as ! 0 + PI_double - last as else as ! j - as ! (j - 1))"

text \<open>
  The sums of the second loop for the split index \<open>k\<close>, as one pass over the vector: the
  entries at the indices below \<open>k\<close> are added shifted by \<^verbatim>\<open>PI\<close>, the others as they are.
\<close>

definition mean_step32 :: "nat \<Rightarrow> flt \<times> flt \<Rightarrow> nat \<times> Pixel \<Rightarrow> flt \<times> flt" where
  "mean_step32 k acc ip =
     (let magWeight = fmul rnd32 (Fin (weight (snd ip))) (Fin (magnitude (snd ip)))
      in (add_angle32 (fst ip < k) (fst acc) (angle (snd ip)) magWeight,
          fadd rnd32 (snd acc) magWeight))"

definition circular_mean32 :: "Pixel list \<Rightarrow> nat \<Rightarrow> flt" where
  "circular_mean32 s k =
     (case foldl (mean_step32 k) (Fin 0, Fin 0) (enumerate 0 s) of (avgAngle, sumMagWeights) \<Rightarrow>
        wrap_angle32 (fdiv rnd32 avgAngle sumMagWeights))"

subsection \<open>The invariant of the loop of the magnitude mean in binary32\<close>

text \<open>
  After \<open>k\<close> neighbours whose weights have the exact sum \<open>\<sigma>\<close>, and whose magnitudes lie
  between \<open>m0\<close> and \<open>2\<^sup>6\<^sup>0\<close>, the two rounded sums are within the factors
  \<open>(1 - 2\<^sup>-\<^sup>2\<^sup>4)\<^sup>k\<close> and \<open>(1 + 2\<^sup>-\<^sup>2\<^sup>4)\<^sup>k\<close> of their exact values (\<open>2\<^sup>2\<^sup>4 = 16777216\<close>,
  \<open>2\<^sup>6\<^sup>0 = 1152921504606846976\<close>).
\<close>

definition sums_ok :: "nat \<Rightarrow> real \<Rightarrow> real \<Rightarrow> real \<Rightarrow> real \<Rightarrow> bool" where
  "sums_ok k m0 \<sigma> sv wv \<longleftrightarrow>
     (\<sigma> = 0 \<or> 1 / 1152921504606846976 \<le> \<sigma>) \<and> \<sigma> \<le> real k \<and>
     (16777215 / 16777216) ^ k * \<sigma> \<le> wv \<and> wv \<le> (16777217 / 16777216) ^ k * \<sigma> \<and>
     (16777215 / 16777216) ^ Suc k * (m0 * \<sigma>) \<le> sv \<and>
     sv \<le> (16777217 / 16777216) ^ Suc k * (1152921504606846976 * \<sigma>)"

text \<open>What the bounds below ask of a candidate of a gated cell: a weight that is zero or
  at least \<open>2\<^sup>-\<^sup>6\<^sup>0\<close> and at most 1, and a magnitude between \<open>m0\<close>, the magnitude of the
  cell, and \<open>2\<^sup>6\<^sup>0\<close>.\<close>

definition gated_candidate :: "real \<Rightarrow> Pixel \<Rightarrow> bool" where
  "gated_candidate m0 n \<longleftrightarrow>
     (weight n = 0 \<or> 1 / 1152921504606846976 \<le> weight n) \<and> weight n \<le> 1 \<and>
     m0 \<le> magnitude n \<and> magnitude n \<le> 1152921504606846976"

text \<open>A map of one cluster whose two cells have the same magnitude, \<open>25.53...\<close>, a
  binary32 number.\<close>

definition level_grid :: PixelMap where
  "level_grid = [ [px 0 0 0 0 (13385073 / 524288), px 0 1 0 0 (13385073 / 524288)] ]"

section \<open>Properties of the kernel functions\<close>

subsection \<open>Closed forms of the loops\<close>

lemma magnitude_sums_eq:
  "magnitude_sums ns (a, b) =
     (a + (\<Sum>n\<leftarrow>ns. weight n * magnitude n), b + (\<Sum>n\<leftarrow>ns. weight n))"
  by (induction ns arbitrary: a b) (simp_all add: algebra_simps)

lemma angle_sums_eq:
  "i \<le> length ns \<Longrightarrow> angle_sums ns k i (a, s) =
     (a + (\<Sum>j = i..<length ns. shifted_angle ns k j * magWeight (ns ! j)),
      s + (\<Sum>j = i..<length ns. magWeight (ns ! j)))"
proof (induction ns k i "(a, s)" arbitrary: a s rule: angle_sums.induct)
  case (1 ns k i a s)
  show ?case
  proof (cases "i < length ns")
    case True
    then have il: "i + 1 \<le> length ns" by simp
    show ?thesis
    proof (cases "i < k")
      case ik: True
      have "angle_sums ns k i (a, s) = angle_sums ns k (i + 1)
          (a + (angle (ns ! i) + PI) * magWeight (ns ! i), s + magWeight (ns ! i))"
        using True ik by (subst angle_sums.simps) (simp add: magWeight_def Let_def)
      also have "\<dots> = (a + (angle (ns ! i) + PI) * magWeight (ns ! i)
             + (\<Sum>j = i + 1..<length ns. shifted_angle ns k j * magWeight (ns ! j)),
           s + magWeight (ns ! i) + (\<Sum>j = i + 1..<length ns. magWeight (ns ! j)))"
        using "1.hyps"(1)[OF True refl ik il] True ik by (simp add: magWeight_def)
      finally show ?thesis
        using True ik by (simp add: sum.atLeast_Suc_lessThan shifted_angle_def algebra_simps)
    next
      case ik: False
      have "angle_sums ns k i (a, s) = angle_sums ns k (i + 1)
          (a + angle (ns ! i) * magWeight (ns ! i), s + magWeight (ns ! i))"
        using True ik by (subst angle_sums.simps) (simp add: magWeight_def Let_def)
      also have "\<dots> = (a + angle (ns ! i) * magWeight (ns ! i)
             + (\<Sum>j = i + 1..<length ns. shifted_angle ns k j * magWeight (ns ! j)),
           s + magWeight (ns ! i) + (\<Sum>j = i + 1..<length ns. magWeight (ns ! j)))"
        using "1.hyps"(2)[OF True refl ik il] True ik by (simp add: magWeight_def)
      finally show ?thesis
        using True ik by (simp add: sum.atLeast_Suc_lessThan shifted_angle_def algebra_simps)
    qed
  next
    case False
    then show ?thesis using "1.prems" by (subst angle_sums.simps) simp
  qed
qed

subsection \<open>The split index is the index after the largest gap\<close>

lemma first_index_least:
  "r < length xs \<Longrightarrow> xs ! r = x \<Longrightarrow> \<forall>j<r. xs ! j \<noteq> x \<Longrightarrow> first_index x xs = r"
proof (induction xs arbitrary: r)
  case Nil
  then show ?case by simp
next
  case (Cons y ys)
  show ?case
  proof (cases r)
    case 0
    with Cons.prems show ?thesis by simp
  next
    case (Suc r')
    from Cons.prems Suc have "y \<noteq> x" by auto
    moreover have "first_index x ys = r'"
      using Cons.prems Suc by (intro Cons.IH) auto
    ultimately show ?thesis using Suc by simp
  qed
qed

lemma find_split_inv:
  assumes "0 < i" "i \<le> length ns" "mi < i"
    and "md = PI - circle_gap (map angle ns) mi"
    and "\<forall>j<i. circle_gap (map angle ns) j \<le> circle_gap (map angle ns) mi"
    and "\<forall>j<mi. circle_gap (map angle ns) j < circle_gap (map angle ns) mi"
  shows "find_split ns i md mi < length ns \<and>
     (\<forall>j<length ns. circle_gap (map angle ns) j \<le> circle_gap (map angle ns) (find_split ns i md mi)) \<and>
     (\<forall>j<find_split ns i md mi. circle_gap (map angle ns) j < circle_gap (map angle ns) (find_split ns i md mi))"
  using assms
proof (induction ns i md mi rule: find_split.induct)
  case (1 ns i md mi)
  let ?g = "circle_gap (map angle ns)"
  show ?case
  proof (cases "i < length ns")
    case False
    with "1.prems" have "i = length ns" by simp
    moreover have "find_split ns i md mi = mi"
      using False by (subst find_split.simps) simp
    ultimately show ?thesis using "1.prems" by simp
  next
    case True
    define diff where "diff = angle (ns ! (i - 1)) + PI - angle (ns ! i)"
    have gi: "?g i = PI - diff"
      using True "1.prems"(1) by (simp add: circle_gap_def diff_def)
    show ?thesis
    proof (cases "diff < md")
      case lt: True
      have eq: "find_split ns i md mi = find_split ns (i + 1) diff i"
        using True lt by (subst find_split.simps) (simp add: diff_def Let_def)
      have big: "?g mi < ?g i" using lt gi "1.prems"(4) by simp
      have "find_split ns (i + 1) diff i < length ns \<and>
          (\<forall>j<length ns. ?g j \<le> ?g (find_split ns (i + 1) diff i)) \<and>
          (\<forall>j<find_split ns (i + 1) diff i. ?g j < ?g (find_split ns (i + 1) diff i))"
      proof (rule "1.IH"(1)[OF True diff_def lt])
        show "0 < i + 1" by simp
        show "i + 1 \<le> length ns" using True by simp
        show "i < i + 1" by simp
        show "diff = PI - ?g i" using gi by simp
        show "\<forall>j<i + 1. ?g j \<le> ?g i"
        proof (intro allI impI)
          fix j assume "j < i + 1"
          then consider "j < i" | "j = i" by linarith
          then show "?g j \<le> ?g i"
            using "1.prems"(5) big by cases force+
        qed
        show "\<forall>j<i. ?g j < ?g i"
          using "1.prems"(5) big by force
      qed
      then show ?thesis unfolding eq .
    next
      case ge: False
      have eq: "find_split ns i md mi = find_split ns (i + 1) md mi"
        using True ge by (subst find_split.simps) (simp add: diff_def Let_def)
      have small: "?g i \<le> ?g mi" using ge gi "1.prems"(4) by simp
      have "find_split ns (i + 1) md mi < length ns \<and>
          (\<forall>j<length ns. ?g j \<le> ?g (find_split ns (i + 1) md mi)) \<and>
          (\<forall>j<find_split ns (i + 1) md mi. ?g j < ?g (find_split ns (i + 1) md mi))"
      proof (rule "1.IH"(2)[OF True diff_def ge])
        show "0 < i + 1" by simp
        show "i + 1 \<le> length ns" using True by simp
        show "mi < i + 1" using "1.prems"(3) by simp
        show "md = PI - ?g mi" by (rule "1.prems"(4))
        show "\<forall>j<i + 1. ?g j \<le> ?g mi"
        proof (intro allI impI)
          fix j assume "j < i + 1"
          then consider "j < i" | "j = i" by linarith
          then show "?g j \<le> ?g mi"
            using "1.prems"(5) small by cases auto
        qed
        show "\<forall>j<mi. ?g j < ?g mi" by (rule "1.prems"(6))
      qed
      then show ?thesis unfolding eq .
    qed
  qed
qed

lemma find_split_largest_gap:
  assumes "ns \<noteq> []"
  defines "r \<equiv> find_split ns 1 (angle (last ns) - angle (ns ! 0)) 0"
  shows "r < length ns"
    and "\<forall>j<length ns. circle_gap (map angle ns) j \<le> circle_gap (map angle ns) r"
    and "\<forall>j<r. circle_gap (map angle ns) j < circle_gap (map angle ns) r"
proof -
  have "find_split ns 1 (angle (last ns) - angle (ns ! 0)) 0 < length ns \<and>
     (\<forall>j<length ns. circle_gap (map angle ns) j \<le> circle_gap (map angle ns) (find_split ns 1 (angle (last ns) - angle (ns ! 0)) 0)) \<and>
     (\<forall>j<find_split ns 1 (angle (last ns) - angle (ns ! 0)) 0. circle_gap (map angle ns) j < circle_gap (map angle ns) (find_split ns 1 (angle (last ns) - angle (ns ! 0)) 0))"
  proof (rule find_split_inv)
    show "(0::nat) < 1" by simp
    show "1 \<le> length ns" using assms(1) by (cases ns) auto
    show "(0::nat) < 1" by simp
    show "angle (last ns) - angle (ns ! 0) = PI - circle_gap (map angle ns) 0"
      using assms(1) by (simp add: circle_gap_def last_map)
    show "\<forall>j<1. circle_gap (map angle ns) j \<le> circle_gap (map angle ns) 0" by simp
    show "\<forall>j<0. circle_gap (map angle ns) j < circle_gap (map angle ns) 0" by simp
  qed
  then show "r < length ns"
    and "\<forall>j<length ns. circle_gap (map angle ns) j \<le> circle_gap (map angle ns) r"
    and "\<forall>j<r. circle_gap (map angle ns) j < circle_gap (map angle ns) r"
    unfolding r_def by blast+
qed

lemma find_split_eq_largest_gap_split:
  assumes "ns \<noteq> []"
  shows "find_split ns 1 (angle (last ns) - angle (ns ! 0)) 0 = largest_gap_split (map angle ns)"
proof -
  let ?as = "map angle ns"
  let ?r = "find_split ns 1 (angle (last ns) - angle (ns ! 0)) 0"
  note fs = find_split_largest_gap[OF assms]
  have len: "length (circle_gaps ?as) = length ns" by (simp add: circle_gaps_def)
  have nth: "\<And>j. j < length ns \<Longrightarrow> circle_gaps ?as ! j = circle_gap ?as j"
    by (simp add: circle_gaps_def)
  have "Max (set (circle_gaps ?as)) = circle_gap ?as ?r"
  proof (rule Max_eqI)
    show "finite (set (circle_gaps ?as))" by simp
    show "circle_gap ?as ?r \<in> set (circle_gaps ?as)"
      using fs(1) nth len by (metis nth_mem)
    fix y assume "y \<in> set (circle_gaps ?as)"
    then obtain j where "j < length ns" "y = circle_gap ?as j"
      using len nth by (metis in_set_conv_nth)
    then show "y \<le> circle_gap ?as ?r" using fs(2) by simp
  qed
  moreover have "first_index (circle_gap ?as ?r) (circle_gaps ?as) = ?r"
  proof (rule first_index_least)
    show "?r < length (circle_gaps ?as)" using fs(1) len by simp
    show "circle_gaps ?as ! ?r = circle_gap ?as ?r" using fs(1) nth by simp
    show "\<forall>j<?r. circle_gaps ?as ! j \<noteq> circle_gap ?as ?r"
    proof (intro allI impI)
      fix j assume j: "j < ?r"
      then have "j < length ns" using fs(1) by simp
      then show "circle_gaps ?as ! j \<noteq> circle_gap ?as ?r"
        using fs(3) j nth by fastforce
    qed
  qed
  ultimately show ?thesis by (simp add: largest_gap_split_def)
qed

subsection \<open>The circular mean: closed form, range, definedness\<close>

lemma sum_nth_eq_sum_list: "(\<Sum>j = 0..<length xs. f (xs ! j)) = (\<Sum>x\<leftarrow>xs. f x)"
proof -
  have "(\<Sum>x\<leftarrow>xs. f x) = (\<Sum>j = 0..<length (map f xs). map f xs ! j)"
    by (rule sum_list_sum_nth)
  also have "\<dots> = (\<Sum>j = 0..<length xs. f (xs ! j))"
    by (rule sum.cong) simp_all
  finally show ?thesis by simp
qed

lemma sum_list_insort_key:
  "(\<Sum>n\<leftarrow>insort_key k x xs. (f n :: real)) = f x + (\<Sum>n\<leftarrow>xs. f n)"
  by (induction xs) simp_all

lemma sum_list_sort_by_angle:
  "(\<Sum>n\<leftarrow>sort_by_angle ns. f n) = (\<Sum>n\<leftarrow>ns. (f n :: real))"
  by (induction ns) (simp_all add: sort_by_angle_def sum_list_insort_key)

lemma sort_by_angle_Nil_iff: "sort_by_angle ns = [] \<longleftrightarrow> ns = []"
  by (metis sort_by_angle_def length_sort length_0_conv)

lemma interpolate_angle_eq:
  assumes "ns \<noteq> []"
  defines "s \<equiv> sort_by_angle ns"
  defines "S \<equiv> (\<Sum>n\<leftarrow>ns. magWeight n)"
  defines "A \<equiv> shifted_sum s (split_index s)"
  shows "interpolate_angle ns =
     (if S = 0 then Inl NonFinite
      else if A / S \<ge> PI / 2 then Inr (A / S - PI) else Inr (A / S))"
proof -
  have ne: "s \<noteq> []" using assms(1) by (simp add: s_def sort_by_angle_Nil_iff)
  have "S = (\<Sum>n\<leftarrow>s. magWeight n)"
    unfolding S_def s_def by (rule sum_list_sort_by_angle[symmetric])
  then have S: "S = (\<Sum>j = 0..<length s. magWeight (s ! j))"
    by (simp only: sum_nth_eq_sum_list)
  have sums: "angle_sums s (split_index s) 0 (0, 0) = (A, S)"
    unfolding S A_def shifted_sum_def by (simp add: angle_sums_eq)
  show ?thesis
    unfolding interpolate_angle_def Let_def s_def[symmetric] split_index_def[symmetric]
    using ne sums by simp
qed

lemma shifted_sum_bounds:
  assumes ang: "\<forall>n\<in>set s. - PI / 2 \<le> angle n \<and> angle n < PI / 2"
    and mw: "\<forall>n\<in>set s. 0 \<le> magWeight n"
    and pos: "0 < (\<Sum>n\<leftarrow>s. magWeight n)"
  shows "- PI / 2 * (\<Sum>n\<leftarrow>s. magWeight n) \<le> shifted_sum s k"
    and "shifted_sum s k < 3 * PI / 2 * (\<Sum>n\<leftarrow>s. magWeight n)"
proof -
  have PIpos: "0 < PI" by (simp add: PI_def)
  let ?I = "{0..<length s}"
  have S: "(\<Sum>n\<leftarrow>s. magWeight n) = (\<Sum>j\<in>?I. magWeight (s ! j))"
    by (simp add: sum_nth_eq_sum_list)
  have lo: "- PI / 2 \<le> shifted_angle s k j" and hi: "shifted_angle s k j < 3 * PI / 2"
    if "j \<in> ?I" for j
  proof -
    from that have "s ! j \<in> set s" by simp
    with ang have "- PI / 2 \<le> angle (s ! j)" "angle (s ! j) < PI / 2" by blast+
    then show "- PI / 2 \<le> shifted_angle s k j" "shifted_angle s k j < 3 * PI / 2"
      using PIpos by (auto simp: shifted_angle_def)
  qed
  have w: "0 \<le> magWeight (s ! j)" if "j \<in> ?I" for j
    using that mw by simp
  have "(\<Sum>j\<in>?I. - PI / 2 * magWeight (s ! j)) \<le> (\<Sum>j\<in>?I. shifted_angle s k j * magWeight (s ! j))"
  proof (rule sum_mono)
    fix j assume "j \<in> ?I"
    then show "- PI / 2 * magWeight (s ! j) \<le> shifted_angle s k j * magWeight (s ! j)"
      using lo[of j] w[of j] by (intro mult_right_mono)
  qed
  then show "- PI / 2 * (\<Sum>n\<leftarrow>s. magWeight n) \<le> shifted_sum s k"
    unfolding S shifted_sum_def sum_distrib_left .
  have "\<exists>j\<in>?I. 0 < magWeight (s ! j)"
  proof (rule ccontr)
    assume "\<not> (\<exists>j\<in>?I. 0 < magWeight (s ! j))"
    then have "\<forall>j\<in>?I. magWeight (s ! j) \<le> 0" by (simp add: not_less)
    then have "(\<Sum>j\<in>?I. magWeight (s ! j)) \<le> 0" by (intro sum_nonpos) simp
    with pos S show False by simp
  qed
  then obtain j0 where j0: "j0 \<in> ?I" "0 < magWeight (s ! j0)" by blast
  have "(\<Sum>j\<in>?I. shifted_angle s k j * magWeight (s ! j)) < (\<Sum>j\<in>?I. 3 * PI / 2 * magWeight (s ! j))"
  proof (rule sum_strict_mono_ex1)
    show "finite ?I" by simp
    show "\<forall>j\<in>?I. shifted_angle s k j * magWeight (s ! j) \<le> 3 * PI / 2 * magWeight (s ! j)"
    proof
      fix j assume "j \<in> ?I"
      then show "shifted_angle s k j * magWeight (s ! j) \<le> 3 * PI / 2 * magWeight (s ! j)"
        using hi[of j] w[of j] by (intro mult_right_mono) simp_all
    qed
    have "shifted_angle s k j0 * magWeight (s ! j0) < 3 * PI / 2 * magWeight (s ! j0)"
      using j0 hi[of j0] by (intro mult_strict_right_mono)
    then show "\<exists>j\<in>?I. shifted_angle s k j * magWeight (s ! j) < 3 * PI / 2 * magWeight (s ! j)"
      using j0(1) by blast
  qed
  then show "shifted_sum s k < 3 * PI / 2 * (\<Sum>n\<leftarrow>s. magWeight n)"
    unfolding S shifted_sum_def sum_distrib_left .
qed

lemma interpolate_angle_range:
  assumes res: "interpolate_angle ns = Inr a"
    and ang: "\<forall>n\<in>set ns. - PI / 2 \<le> angle n \<and> angle n < PI / 2"
    and mw: "\<forall>n\<in>set ns. 0 \<le> magWeight n"
  shows "- PI / 2 \<le> a \<and> a < PI / 2"
proof -
  have ne: "ns \<noteq> []"
    using res by (auto simp: interpolate_angle_def sort_by_angle_Nil_iff Let_def)
  define s where "s = sort_by_angle ns"
  define S where "S = (\<Sum>n\<leftarrow>ns. magWeight n)"
  define A where "A = shifted_sum s (split_index s)"
  have eq: "interpolate_angle ns =
     (if S = 0 then Inl NonFinite
      else if A / S \<ge> PI / 2 then Inr (A / S - PI) else Inr (A / S))"
    unfolding S_def A_def s_def by (rule interpolate_angle_eq[OF ne])
  have set_s: "set s = set ns" by (simp add: s_def sort_by_angle_def)
  have S_s: "S = (\<Sum>n\<leftarrow>s. magWeight n)"
    by (simp add: S_def s_def sum_list_sort_by_angle)
  have "0 \<le> S" unfolding S_def
    by (rule sum_list_nonneg) (use mw in auto)
  moreover have "S \<noteq> 0" using res eq by (auto split: if_splits)
  ultimately have Spos: "0 < S" by simp
  have b1: "- PI / 2 * S \<le> A" and b2: "A < 3 * PI / 2 * S"
    using shifted_sum_bounds[of s "split_index s"] ang mw Spos
    unfolding set_s A_def S_s by blast+
  have q1: "- PI / 2 \<le> A / S" using b1 Spos by (simp add: pos_le_divide_eq)
  have q2: "A / S < 3 * PI / 2" using b2 Spos by (simp add: pos_divide_less_eq)
  define x where "x = A / S"
  from res eq \<open>S \<noteq> 0\<close> have a: "a = (if x \<ge> PI / 2 then x - PI else x)"
    by (auto simp: x_def split: if_splits)
  have x1: "- PI / 2 \<le> x" and x2: "x < 3 * PI / 2" using q1 q2 by (simp_all add: x_def)
  show ?thesis
  proof (cases "x \<ge> PI / 2")
    case True
    then have "a = x - PI" using a by simp
    then show ?thesis using True x2 by linarith
  next
    case False
    then have "a = x" using a by simp
    then show ?thesis using False x1 by linarith
  qed
qed

lemma interpolate_angle_defined:
  assumes "ns \<noteq> []" "(\<Sum>n\<leftarrow>ns. magWeight n) \<noteq> 0"
  shows "\<exists>a. interpolate_angle ns = Inr a"
  using assms by (simp add: interpolate_angle_eq)

subsection \<open>The weighted magnitude mean\<close>

lemma interpolate_magnitude_eq:
  "interpolate_magnitude ns =
     (if (\<Sum>n\<leftarrow>ns. weight n) = 0 then Inl NonFinite
      else Inr ((\<Sum>n\<leftarrow>ns. weight n * magnitude n) / (\<Sum>n\<leftarrow>ns. weight n)))"
  by (simp add: interpolate_magnitude_def magnitude_sums_eq)

lemma sum_list_pos_real:
  "ns \<noteq> [] \<Longrightarrow> \<forall>n\<in>set ns. 0 < (f n :: real) \<Longrightarrow> 0 < (\<Sum>n\<leftarrow>ns. f n)"
proof (induction ns)
  case Nil
  then show ?case by simp
next
  case (Cons a ns)
  have "0 \<le> (\<Sum>n\<leftarrow>ns. f n)"
    by (rule sum_list_nonneg) (use Cons.prems(2) in \<open>auto intro: less_imp_le\<close>)
  moreover have "0 < f a" using Cons.prems(2) by simp
  ultimately show ?case by simp
qed

lemma interpolate_magnitude_lower:
  assumes res: "interpolate_magnitude ns = Inr m"
    and w: "\<forall>n\<in>set ns. 0 < weight n"
    and lo: "\<forall>n\<in>set ns. m0 \<le> magnitude n"
  shows "m0 \<le> m"
proof -
  have S0: "(\<Sum>n\<leftarrow>ns. weight n) \<noteq> 0"
    using res by (auto simp: interpolate_magnitude_eq split: if_splits)
  have "0 \<le> (\<Sum>n\<leftarrow>ns. weight n)"
    by (rule sum_list_nonneg) (use w in \<open>auto intro: less_imp_le\<close>)
  with S0 have Spos: "0 < (\<Sum>n\<leftarrow>ns. weight n)" by simp
  have "(\<Sum>n\<leftarrow>ns. weight n * m0) \<le> (\<Sum>n\<leftarrow>ns. weight n * magnitude n)"
    by (rule sum_list_mono) (use w lo in \<open>simp add: mult_left_mono less_imp_le\<close>)
  then have "m0 * (\<Sum>n\<leftarrow>ns. weight n) \<le> (\<Sum>n\<leftarrow>ns. weight n * magnitude n)"
    by (simp only: sum_list_mult_const mult.commute[of m0])
  moreover have "m = (\<Sum>n\<leftarrow>ns. weight n * magnitude n) / (\<Sum>n\<leftarrow>ns. weight n)"
    using res S0 by (simp add: interpolate_magnitude_eq)
  ultimately show ?thesis using Spos by (simp add: pos_le_divide_eq)
qed

lemma interpolate_magnitude_defined:
  assumes "ns \<noteq> []" "\<forall>n\<in>set ns. 0 < weight n"
  shows "\<exists>m. interpolate_magnitude ns = Inr m"
  using sum_list_pos_real[OF assms] by (simp add: interpolate_magnitude_eq)

section \<open>Properties of the per-cell update and of a sweep\<close>

subsection \<open>Maps, windows and writes\<close>

lemma rect_nonempty: "rect pm \<Longrightarrow> pm \<noteq> []"
  unfolding rect_def by blast

lemma rect_row: "rect pm \<Longrightarrow> i < length pm \<Longrightarrow> length (pm ! i) = length (pm ! 0)"
  unfolding rect_def using nth_mem by blast

lemma rectI:
  assumes "pm \<noteq> []" "\<And>i. i < length pm \<Longrightarrow> length (pm ! i) = length (pm ! 0)"
  shows "rect pm"
  unfolding rect_def using assms by (metis in_set_conv_nth)

lemma concat_if_inner:
  "concat (map (\<lambda>cc. if P cc then [f cc] else []) cs) = map f (filter P cs)"
  by (induction cs) simp_all

lemma concat_if_product:
  "concat (map (\<lambda>rr. concat (map (\<lambda>cc. if P rr cc then [f rr cc] else []) cs)) rs)
     = map (\<lambda>rc. f (fst rc) (snd rc)) (filter (\<lambda>rc. P (fst rc) (snd rc)) (List.product rs cs))"
  by (induction rs) (simp_all add: concat_if_inner filter_map comp_def)

lemma qualified_neighbors_eq:
  "qualified_neighbors r c k pm old ig =
     map (\<lambda>rc. at_px old (fst rc) (snd rc)) (filter (qualifies r c pm old ig) (window r c k pm))"
  unfolding qualified_neighbors_def Let_def window_def
  by (simp only: concat_if_product) (simp add: qualifies_def[abs_def])

lemma window_in_range:
  assumes "rc \<in> set (window r c k pm)"
  shows "in_range pm (fst rc) (snd rc)"
  using assms by (auto simp: window_def in_range_def)

lemma center_in_window:
  assumes "in_range pm r c" "0 \<le> k"
  shows "(r, c) \<in> set (window r c k pm)"
proof -
  have "0 \<le> k sdiv 2" using assms(2) by (simp add: signed_divide_int_def sgn_if)
  then show ?thesis using assms(1) by (auto simp: window_def in_range_def)
qed

lemma distinct_window: "distinct (window r c k pm)"
  by (simp add: window_def distinct_product)

lemma at_px_set_px:
  assumes "in_range pm r c" "rect pm" "0 \<le> r'" "0 \<le> c'"
  shows "at_px (set_px pm r c p) r' c' = (if r' = r \<and> c' = c then p else at_px pm r' c')"
proof -
  have r: "nat r < length pm" using assms(1) by (auto simp: in_range_def)
  have "length (pm ! nat r) = length (pm ! 0)" using assms(2) r by (rule rect_row)
  then have c: "nat c < length (pm ! nat r)" using assms(1) by (auto simp: in_range_def)
  have rr: "nat r = nat r' \<longleftrightarrow> r' = r" using assms(1,3) by (auto simp: in_range_def)
  have cc: "nat c = nat c' \<longleftrightarrow> c' = c" using assms(1,4) by (auto simp: in_range_def)
  show ?thesis
  proof (cases "r' = r")
    case True
    have "at_px (set_px pm r c p) r' c' = (pm ! nat r)[nat c := p] ! nat c'"
      using True r by (simp add: at_px_def set_px_def)
    also have "\<dots> = (if c' = c then p else pm ! nat r ! nat c')"
      using c cc by (simp add: nth_list_update)
    finally show ?thesis using True by (simp add: at_px_def)
  next
    case False
    then have "nat r \<noteq> nat r'" using rr by simp
    then show ?thesis using False by (simp add: at_px_def set_px_def)
  qed
qed

lemma same_shape_set_px: "same_shape (set_px pm r c p) pm"
proof -
  have "length (pm[nat r := (pm ! nat r)[nat c := p] ] ! i) = length (pm ! i)" if "i < length pm" for i
  proof (cases "i = nat r")
    case True
    then show ?thesis using that by simp
  next
    case False
    then show ?thesis by simp
  qed
  then show ?thesis by (simp add: same_shape_def set_px_def)
qed

lemma same_shape_refl: "same_shape pm pm"
  by (simp add: same_shape_def)

lemma same_shape_trans: "same_shape a b \<Longrightarrow> same_shape b c \<Longrightarrow> same_shape a c"
  by (simp add: same_shape_def)

lemma same_shape_sym: "same_shape a b \<Longrightarrow> same_shape b a"
  by (simp add: same_shape_def)

lemma same_shape_row0:
  assumes "same_shape a b" "rect b"
  shows "length (a ! 0) = length (b ! 0)"
proof -
  have "b \<noteq> []" using assms(2) by (rule rect_nonempty)
  then have "0 < length a" using assms(1) by (simp add: same_shape_def)
  moreover have "\<forall>i<length a. length (a ! i) = length (b ! i)"
    using assms(1) by (simp add: same_shape_def)
  ultimately show ?thesis by blast
qed

lemma same_shape_rect:
  assumes "same_shape a b" "rect b"
  shows "rect a"
proof (rule rectI)
  have "b \<noteq> []" using assms(2) by (rule rect_nonempty)
  then show "a \<noteq> []" using assms(1) by (auto simp: same_shape_def)
next
  fix i assume i: "i < length a"
  then have "length (a ! i) = length (b ! i)" using assms(1) by (simp add: same_shape_def)
  moreover have "length (b ! i) = length (b ! 0)"
    using assms i by (intro rect_row) (simp_all add: same_shape_def)
  ultimately show "length (a ! i) = length (a ! 0)"
    using same_shape_row0[OF assms] by simp
qed

lemma same_shape_in_range: "same_shape a b \<Longrightarrow> rect b \<Longrightarrow> in_range a r c = in_range b r c"
  using same_shape_row0[of a b] by (simp add: in_range_def same_shape_def)

lemma same_shape_window: "same_shape a b \<Longrightarrow> rect b \<Longrightarrow> window r c k a = window r c k b"
  using same_shape_row0[of a b] by (simp add: window_def same_shape_def)

subsection \<open>The live map is read for cluster ids only\<close>

lemma set_px_same:
  "set_px pm r c (at_px pm r c) = pm"
  by (simp add: set_px_def at_px_def)

lemma qualified_neighbors_cong:
  assumes sh: "same_shape live old" and re: "rect old" and cl: "same_clusters live old"
    and rc: "in_range old r c"
  shows "qualified_neighbors r c k live old ig = qualified_neighbors r c k old old ig"
proof -
  have w: "window r c k live = window r c k old" using sh re by (rule same_shape_window)
  have "filter (qualifies r c live old ig) (window r c k old)
      = filter (qualifies r c old old ig) (window r c k old)"
  proof (rule filter_cong[OF refl])
    fix x assume "x \<in> set (window r c k old)"
    then have "in_range old (fst x) (snd x)" by (rule window_in_range)
    then show "qualifies r c live old ig x = qualifies r c old old ig x"
      using cl rc by (simp add: qualifies_def same_clusters_def)
  qed
  then show ?thesis by (simp add: qualified_neighbors_eq w)
qed

lemma new_pixel_eq:
  assumes re: "rect old" and rc: "in_range old r c"
  shows "new_pixel r c k old img ig =
     (let qualified = qualified_neighbors r c k old old ig
      in if \<not> length qualified \<ge> 1 then Inl AssertionFailed
         else if length qualified = 1 then Inr (at_px old r c)
         else
           let weighted = bilateral_filter (r, c) qualified img
           in case interpolate_magnitude weighted of
                Inl e \<Rightarrow> Inl e
              | Inr m \<Rightarrow>
                  (case interpolate_angle weighted of
                     Inl e \<Rightarrow> Inl e
                   | Inr a \<Rightarrow> Inr ((at_px old r c)\<lparr>magnitude := m, angle := a\<rparr>)))"
proof -
  have ne: "length old \<noteq> 0" using re rect_nonempty by simp
  have r0: "0 \<le> r" and c0: "0 \<le> c" using rc by (simp_all add: in_range_def)
  have at: "at_px (set_px old r c p) r c = p" for p
    using at_px_set_px[OF rc re r0 c0] by simp
  show ?thesis
    unfolding new_pixel_def updateCell_def Let_def using ne
    by (simp add: at split: sum.splits)
qed

lemma updateCell_via_new_pixel:
  assumes sh: "same_shape live old" and re: "rect old" and cl: "same_clusters live old"
    and rc: "in_range old r c" and same: "at_px live r c = at_px old r c"
  shows "updateCell r c k live old img ig =
     (case new_pixel r c k old img ig of Inl e \<Rightarrow> Inl e | Inr p \<Rightarrow> Inr (set_px live r c p))"
proof -
  have ne: "length live \<noteq> 0" using sh re rect_nonempty by (auto simp: same_shape_def)
  have q: "qualified_neighbors r c k live old ig = qualified_neighbors r c k old old ig"
    using sh re cl rc by (rule qualified_neighbors_cong)
  have id: "set_px live r c (at_px old r c) = live"
    using set_px_same[of live r c] same by simp
  show ?thesis
    unfolding new_pixel_eq[OF re rc] updateCell_def q Let_def same using ne
    by (simp add: id split: sum.splits)
qed

lemma pixel_self_update: "\<exists>m a. (P::Pixel) = P\<lparr>magnitude := m, angle := a\<rparr>"
  by (rule exI[of _ "magnitude P"], rule exI[of _ "angle P"]) simp

lemma new_pixel_fields:
  assumes "new_pixel r c k old img ig = Inr p" "rect old" "in_range old r c"
  shows "\<exists>m a. p = (at_px old r c)\<lparr>magnitude := m, angle := a\<rparr>"
  using assms(1) pixel_self_update[of "at_px old r c"]
  unfolding new_pixel_eq[OF assms(2,3)] Let_def
  by (auto split: if_splits sum.splits)

subsection \<open>A sweep computes every cell from the map at its start\<close>

text \<open>
  While the loops of \<^verbatim>\<open>iterate\<close> run, the live map keeps the shape and the cluster ids of
  the copy, the cells not yet visited are those of the copy, and every visited cell is the
  \<open>new_pixel\<close> of the copy. So the order of the visits does not matter.
\<close>

lemma sweep_cells_inv:
  assumes "sweep_cells cells k live old img ig = Inr pm'"
    and "rect old" and "distinct cells"
    and "\<forall>rc\<in>set cells. in_range old (fst rc) (snd rc)"
    and "same_shape live old" and "same_clusters live old"
    and "\<forall>rc\<in>set cells. at_px live (fst rc) (snd rc) = at_px old (fst rc) (snd rc)"
  shows "same_shape pm' old \<and>
     (\<forall>r c. in_range old r c \<longrightarrow>
        (if (r, c) \<in> set cells then new_pixel r c k old img ig = Inr (at_px pm' r c)
         else at_px pm' r c = at_px live r c))"
  using assms
proof (induction cells arbitrary: live)
  case Nil
  then show ?case by simp
next
  case (Cons rc cells)
  obtain r c where rc: "rc = (r, c)" by (cases rc)
  have inr: "in_range old r c" using Cons.prems(4) rc by simp
  have same: "at_px live r c = at_px old r c" using Cons.prems(7) rc by simp
  note re = \<open>rect old\<close>
  have upd: "updateCell r c k live old img ig =
     (case new_pixel r c k old img ig of Inl e \<Rightarrow> Inl e | Inr p \<Rightarrow> Inr (set_px live r c p))"
    using Cons.prems(5) re Cons.prems(6) inr same by (rule updateCell_via_new_pixel)
  from Cons.prems(1) rc upd obtain p where p: "new_pixel r c k old img ig = Inr p"
    and rest: "sweep_cells cells k (set_px live r c p) old img ig = Inr pm'"
    by (auto split: sum.splits)
  define live1 where "live1 = set_px live r c p"
  have rl: "rect live" using Cons.prems(5) re by (rule same_shape_rect)
  have inl: "in_range live r c" using inr same_shape_in_range[OF Cons.prems(5) re] by simp
  have at1: "at_px live1 r' c' = (if r' = r \<and> c' = c then p else at_px live r' c')"
    if "in_range old r' c'" for r' c'
    unfolding live1_def using that by (intro at_px_set_px[OF inl rl]) (simp_all add: in_range_def)
  obtain m a where pf: "p = (at_px old r c)\<lparr>magnitude := m, angle := a\<rparr>"
    using new_pixel_fields[OF p re inr] by blast
  have sh1: "same_shape live1 old"
    unfolding live1_def using same_shape_set_px Cons.prems(5) by (rule same_shape_trans)
  have cl1: "same_clusters live1 old"
    unfolding same_clusters_def
  proof (intro allI impI)
    fix r' c' assume a: "in_range old r' c'"
    show "cluster (at_px live1 r' c') = cluster (at_px old r' c')"
      using at1[OF a] pf Cons.prems(6) a by (auto simp: same_clusters_def)
  qed
  have notin: "(r, c) \<notin> set cells" using Cons.prems(3) rc by simp
  have rest_same: "\<forall>x\<in>set cells. at_px live1 (fst x) (snd x) = at_px old (fst x) (snd x)"
  proof
    fix x assume x: "x \<in> set cells"
    then have xr: "in_range old (fst x) (snd x)" using Cons.prems(4) by simp
    have "x \<noteq> (r, c)" using x notin by auto
    then have "\<not> (fst x = r \<and> snd x = c)" by (cases x) auto
    then have "at_px live1 (fst x) (snd x) = at_px live (fst x) (snd x)"
      using at1[OF xr] by auto
    then show "at_px live1 (fst x) (snd x) = at_px old (fst x) (snd x)"
      using Cons.prems(7) x by simp
  qed
  have IH: "same_shape pm' old \<and>
     (\<forall>r' c'. in_range old r' c' \<longrightarrow>
        (if (r', c') \<in> set cells then new_pixel r' c' k old img ig = Inr (at_px pm' r' c')
         else at_px pm' r' c' = at_px live1 r' c'))"
  proof (rule Cons.IH)
    show "sweep_cells cells k live1 old img ig = Inr pm'" using rest by (simp add: live1_def)
    show "rect old" by (rule re)
    show "distinct cells" using Cons.prems(3) by simp
    show "\<forall>rc\<in>set cells. in_range old (fst rc) (snd rc)" using Cons.prems(4) by simp
    show "same_shape live1 old" by (rule sh1)
    show "same_clusters live1 old" by (rule cl1)
    show "\<forall>rc\<in>set cells. at_px live1 (fst rc) (snd rc) = at_px old (fst rc) (snd rc)"
      by (rule rest_same)
  qed
  show ?case
  proof (intro conjI allI impI)
    show "same_shape pm' old" using IH by simp
  next
    fix r' c' assume a: "in_range old r' c'"
    consider "r' = r \<and> c' = c" | "(r', c') \<in> set cells" | "\<not> (r' = r \<and> c' = c)" "(r', c') \<notin> set cells"
      by blast
    then show "if (r', c') \<in> set (rc # cells)
        then new_pixel r' c' k old img ig = Inr (at_px pm' r' c')
        else at_px pm' r' c' = at_px live r' c'"
    proof cases
      case 1
      then have "at_px pm' r' c' = at_px live1 r' c'" using IH a notin by auto
      then have "at_px pm' r' c' = p" using at1[OF a] 1 by simp
      then show ?thesis using 1 p rc by simp
    next
      case 2
      then show ?thesis using IH a by auto
    next
      case 3
      then have "at_px pm' r' c' = at_px live1 r' c'" using IH a by auto
      then show ?thesis using at1[OF a] 3 rc by auto
    qed
  qed
qed

lemma sweep_cells_append:
  "sweep_cells (xs @ ys) k pm old img ig =
     (case sweep_cells xs k pm old img ig of
        Inl e \<Rightarrow> Inl e
      | Inr pm' \<Rightarrow> sweep_cells ys k pm' old img ig)"
  by (induction xs arbitrary: pm) (simp_all split: sum.splits)

lemma iterate_cols_eq:
  "iterate_cols r cs k pm old img ig = sweep_cells (map (Pair r) cs) k pm old img ig"
  by (induction cs arbitrary: pm) (simp_all split: sum.splits)

lemma iterate_rows_eq:
  "iterate_rows rs cs k pm old img ig = sweep_cells (List.product rs cs) k pm old img ig"
  by (induction rs arbitrary: pm) (simp_all add: sweep_cells_append iterate_cols_eq split: sum.splits)

lemma iterate_eq:
  "iterate k pm img ig =
     (if length pm = 0 then Inl AssertionFailed else sweep_cells (all_cells pm) k pm pm img ig)"
  by (simp add: iterate_def iterate_rows_eq all_cells_def Let_def)

lemma set_all_cells: "rc \<in> set (all_cells pm) \<longleftrightarrow> in_range pm (fst rc) (snd rc)"
  by (cases rc) (auto simp: all_cells_def in_range_def)

lemma distinct_all_cells: "distinct (all_cells pm)"
  by (simp add: all_cells_def distinct_product)

lemma same_clusters_refl: "same_clusters pm pm"
  by (simp add: same_clusters_def)

lemma iterate_cells:
  assumes "iterate k pm img ig = Inr pm'" "rect pm"
  shows "same_shape pm' pm"
    and "in_range pm r c \<Longrightarrow> new_pixel r c k pm img ig = Inr (at_px pm' r c)"
proof -
  have sw: "sweep_cells (all_cells pm) k pm pm img ig = Inr pm'"
    using assms(1) by (simp add: iterate_eq split: if_splits)
  have inv: "same_shape pm' pm \<and>
     (\<forall>r c. in_range pm r c \<longrightarrow>
        (if (r, c) \<in> set (all_cells pm) then new_pixel r c k pm img ig = Inr (at_px pm' r c)
         else at_px pm' r c = at_px pm r c))"
    using sw assms(2) distinct_all_cells
  proof (rule sweep_cells_inv)
    show "\<forall>rc\<in>set (all_cells pm). in_range pm (fst rc) (snd rc)"
      by (simp add: set_all_cells)
    show "same_shape pm pm" by (rule same_shape_refl)
    show "same_clusters pm pm" by (rule same_clusters_refl)
    show "\<forall>rc\<in>set (all_cells pm). at_px pm (fst rc) (snd rc) = at_px pm (fst rc) (snd rc)"
      by simp
  qed
  show "same_shape pm' pm" using inv by simp
  show "new_pixel r c k pm img ig = Inr (at_px pm' r c)" if "in_range pm r c"
    using inv that set_all_cells[of "(r, c)" pm] by simp
qed

lemma sweep_cells_total:
  assumes "\<forall>rc\<in>set cells. \<exists>p. new_pixel (fst rc) (snd rc) k old img ig = Inr p"
    and "rect old" and "distinct cells"
    and "\<forall>rc\<in>set cells. in_range old (fst rc) (snd rc)"
    and "same_shape live old" and "same_clusters live old"
    and "\<forall>rc\<in>set cells. at_px live (fst rc) (snd rc) = at_px old (fst rc) (snd rc)"
  shows "\<exists>pm'. sweep_cells cells k live old img ig = Inr pm'"
  using assms
proof (induction cells arbitrary: live)
  case Nil
  then show ?case by simp
next
  case (Cons rc cells)
  obtain r c where rc: "rc = (r, c)" by (cases rc)
  have inr: "in_range old r c" using Cons.prems(4) rc by simp
  have same: "at_px live r c = at_px old r c" using Cons.prems(7) rc by simp
  note re = \<open>rect old\<close>
  obtain p where p: "new_pixel r c k old img ig = Inr p" using Cons.prems(1) rc by auto
  have upd: "updateCell r c k live old img ig = Inr (set_px live r c p)"
    using updateCell_via_new_pixel[OF Cons.prems(5) re Cons.prems(6) inr same, of k img ig] p
    by simp
  define live1 where "live1 = set_px live r c p"
  have rl: "rect live" using Cons.prems(5) re by (rule same_shape_rect)
  have inl: "in_range live r c" using inr same_shape_in_range[OF Cons.prems(5) re] by simp
  have at1: "at_px live1 r' c' = (if r' = r \<and> c' = c then p else at_px live r' c')"
    if "in_range old r' c'" for r' c'
    unfolding live1_def using that by (intro at_px_set_px[OF inl rl]) (simp_all add: in_range_def)
  obtain m a where pf: "p = (at_px old r c)\<lparr>magnitude := m, angle := a\<rparr>"
    using new_pixel_fields[OF p re inr] by blast
  have sh1: "same_shape live1 old"
    unfolding live1_def using same_shape_set_px Cons.prems(5) by (rule same_shape_trans)
  have cl1: "same_clusters live1 old"
    unfolding same_clusters_def
  proof (intro allI impI)
    fix r' c' assume a: "in_range old r' c'"
    show "cluster (at_px live1 r' c') = cluster (at_px old r' c')"
      using at1[OF a] pf Cons.prems(6) a by (auto simp: same_clusters_def)
  qed
  have notin: "(r, c) \<notin> set cells" using Cons.prems(3) rc by simp
  have rest_same: "\<forall>x\<in>set cells. at_px live1 (fst x) (snd x) = at_px old (fst x) (snd x)"
  proof
    fix x assume x: "x \<in> set cells"
    then have xr: "in_range old (fst x) (snd x)" using Cons.prems(4) by simp
    have "x \<noteq> (r, c)" using x notin by auto
    then have "\<not> (fst x = r \<and> snd x = c)" by (cases x) auto
    then have "at_px live1 (fst x) (snd x) = at_px live (fst x) (snd x)"
      using at1[OF xr] by auto
    then show "at_px live1 (fst x) (snd x) = at_px old (fst x) (snd x)"
      using Cons.prems(7) x by simp
  qed
  have "\<exists>pm'. sweep_cells cells k live1 old img ig = Inr pm'"
  proof (rule Cons.IH)
    show "\<forall>rc\<in>set cells. \<exists>p. new_pixel (fst rc) (snd rc) k old img ig = Inr p"
      using Cons.prems(1) by simp
    show "rect old" by (rule re)
    show "distinct cells" using Cons.prems(3) by simp
    show "\<forall>rc\<in>set cells. in_range old (fst rc) (snd rc)" using Cons.prems(4) by simp
    show "same_shape live1 old" by (rule sh1)
    show "same_clusters live1 old" by (rule cl1)
    show "\<forall>rc\<in>set cells. at_px live1 (fst rc) (snd rc) = at_px old (fst rc) (snd rc)"
      by (rule rest_same)
  qed
  then show ?case using upd rc by (simp add: live1_def)
qed

lemma iterate_total:
  assumes "rect pm" "\<And>r c. in_range pm r c \<Longrightarrow> \<exists>p. new_pixel r c k pm img ig = Inr p"
  shows "\<exists>pm'. iterate k pm img ig = Inr pm'"
proof -
  have "\<exists>pm'. sweep_cells (all_cells pm) k pm pm img ig = Inr pm'"
  proof (rule sweep_cells_total)
    show "\<forall>rc\<in>set (all_cells pm). \<exists>p. new_pixel (fst rc) (snd rc) k pm img ig = Inr p"
      using assms(2) by (simp add: set_all_cells)
    show "rect pm" by (rule assms(1))
    show "distinct (all_cells pm)" by (rule distinct_all_cells)
    show "\<forall>rc\<in>set (all_cells pm). in_range pm (fst rc) (snd rc)"
      by (simp add: set_all_cells)
    show "same_shape pm pm" by (rule same_shape_refl)
    show "same_clusters pm pm" by (rule same_clusters_refl)
    show "\<forall>rc\<in>set (all_cells pm). at_px pm (fst rc) (snd rc) = at_px pm (fst rc) (snd rc)"
      by simp
  qed
  then show ?thesis using assms(1) rect_nonempty by (simp add: iterate_eq)
qed

subsection \<open>Weights, candidates and the new pixel\<close>

lemma PI_pos: "0 < PI"
  by (simp add: PI_def)

lemma gaussian_pos: "0 < sigma g \<Longrightarrow> 0 < gaussian g x"
  using PI_pos by (simp add: gaussian_def)

lemma bilateral_weight_pos: "0 < bilateral_weight ctr img n"
  by (simp add: bilateral_weight_def Let_def gaussian_pos spatialFilter_def colorFilter_def)

lemma in_bilateral_filter:
  assumes "n \<in> set (bilateral_filter ctr ns img)"
  shows "\<exists>q\<in>set ns. n = q\<lparr>weight := bilateral_weight ctr img q\<rparr>"
  using assms by (auto simp: bilateral_filter_def)

lemma length_bilateral_filter: "length (bilateral_filter ctr ns img) = length ns"
  by (simp add: bilateral_filter_def)

lemma in_qualified_neighbors:
  assumes "x \<in> set (qualified_neighbors r c k pm old ig)"
  shows "\<exists>rr cc. (rr, cc) \<in> set (window r c k pm) \<and> x = at_px old rr cc
     \<and> cluster (at_px pm rr cc) = cluster (at_px pm r c)
     \<and> (ig \<or> magnitude (at_px old r c) \<le> magnitude (at_px old rr cc))"
proof -
  from assms obtain rc where rc: "rc \<in> set (window r c k pm)" "qualifies r c pm old ig rc"
    "x = at_px old (fst rc) (snd rc)"
    by (auto simp: qualified_neighbors_eq)
  show ?thesis
    by (rule exI[of _ "fst rc"], rule exI[of _ "snd rc"]) (use rc in \<open>auto simp: qualifies_def\<close>)
qed

lemma new_pixel_cases:
  assumes np: "new_pixel r c k old img ig = Inr p" and re: "rect old" and rc: "in_range old r c"
  obtains (single) "length (qualified_neighbors r c k old old ig) = 1" "p = at_px old r c"
  | (many) m a where "2 \<le> length (qualified_neighbors r c k old old ig)"
      "interpolate_magnitude (bilateral_filter (r, c) (qualified_neighbors r c k old old ig) img) = Inr m"
      "interpolate_angle (bilateral_filter (r, c) (qualified_neighbors r c k old old ig) img) = Inr a"
      "p = (at_px old r c)\<lparr>magnitude := m, angle := a\<rparr>"
proof -
  let ?Q = "qualified_neighbors r c k old old ig"
  show ?thesis
  proof (cases "length ?Q = 1")
    case True
    then have "p = at_px old r c"
      using np unfolding new_pixel_eq[OF re rc] Let_def by simp
    then show ?thesis using True single by blast
  next
    case False
    have ge: "1 \<le> length ?Q"
      using np unfolding new_pixel_eq[OF re rc] Let_def by (auto split: if_splits)
    with False have two: "2 \<le> length ?Q" by simp
    from np False ge obtain m a where
      "interpolate_magnitude (bilateral_filter (r, c) ?Q img) = Inr m"
      "interpolate_angle (bilateral_filter (r, c) ?Q img) = Inr a"
      "p = (at_px old r c)\<lparr>magnitude := m, angle := a\<rparr>"
      unfolding new_pixel_eq[OF re rc] Let_def by (auto split: if_splits sum.splits)
    then show ?thesis using two many by blast
  qed
qed

lemma new_pixel_magnitude_mono:
  assumes np: "new_pixel r c k old img False = Inr p" and re: "rect old" and rc: "in_range old r c"
  shows "magnitude (at_px old r c) \<le> magnitude p"
  using np re rc
proof (cases rule: new_pixel_cases)
  case single
  then show ?thesis by simp
next
  case (many m a)
  let ?Q = "qualified_neighbors r c k old old False"
  let ?W = "bilateral_filter (r, c) ?Q img"
  have "magnitude (at_px old r c) \<le> m"
  proof (rule interpolate_magnitude_lower[OF many(2)])
    show "\<forall>n\<in>set ?W. 0 < weight n"
      using in_bilateral_filter bilateral_weight_pos by fastforce
    show "\<forall>n\<in>set ?W. magnitude (at_px old r c) \<le> magnitude n"
    proof
      fix n assume "n \<in> set ?W"
      then obtain q where q: "q \<in> set ?Q" "n = q\<lparr>weight := bilateral_weight (r, c) img q\<rparr>"
        using in_bilateral_filter by blast
      then have "magnitude (at_px old r c) \<le> magnitude q"
        using in_qualified_neighbors[OF q(1)] by auto
      then show "magnitude (at_px old r c) \<le> magnitude n" using q(2) by simp
    qed
  qed
  then show ?thesis using many(4) by simp
qed

lemma new_pixel_ok:
  assumes np: "new_pixel r c k old img ig = Inr p" and re: "rect old" and rc: "in_range old r c"
    and ok: "grid_ok old"
  shows "pixel_ok p"
  using np re rc
proof (cases rule: new_pixel_cases)
  case single
  then show ?thesis using ok rc by (simp add: grid_ok_def)
next
  case (many m a)
  let ?Q = "qualified_neighbors r c k old old ig"
  let ?W = "bilateral_filter (r, c) ?Q img"
  have Qok: "pixel_ok q" if "q \<in> set ?Q" for q
  proof -
    from in_qualified_neighbors[OF that] obtain rr cc where
      "(rr, cc) \<in> set (window r c k old)" "q = at_px old rr cc" by blast
    then show ?thesis using window_in_range[of "(rr, cc)"] ok by (auto simp: grid_ok_def)
  qed
  have W: "0 < weight n \<and> pixel_ok n" if "n \<in> set ?W" for n
  proof -
    from in_bilateral_filter[OF that] obtain q where
      q: "q \<in> set ?Q" "n = q\<lparr>weight := bilateral_weight (r, c) img q\<rparr>" by blast
    then show ?thesis using Qok[OF q(1)] bilateral_weight_pos by (simp add: pixel_ok_def)
  qed
  have "0 \<le> m"
    by (rule interpolate_magnitude_lower[OF many(2)]) (use W in \<open>auto simp: pixel_ok_def\<close>)
  moreover have "- PI / 2 \<le> a \<and> a < PI / 2"
  proof (rule interpolate_angle_range[OF many(3)])
    show "\<forall>n\<in>set ?W. - PI / 2 \<le> angle n \<and> angle n < PI / 2"
      using W by (auto simp: pixel_ok_def)
    show "\<forall>n\<in>set ?W. 0 \<le> magWeight n"
    proof
      fix n assume "n \<in> set ?W"
      then have "0 < weight n" "0 \<le> magnitude n" using W by (auto simp: pixel_ok_def)
      then show "0 \<le> magWeight n" by (simp add: magWeight_def)
    qed
  qed
  ultimately show ?thesis using many(4) by (simp add: pixel_ok_def)
qed

lemma iterate_grid_ok:
  assumes "iterate k pm img ig = Inr pm'" "rect pm" "grid_ok pm"
  shows "rect pm' \<and> grid_ok pm'"
proof -
  have sh: "same_shape pm' pm" using assms(1,2) by (rule iterate_cells(1))
  have re: "rect pm'" using sh assms(2) by (rule same_shape_rect)
  have "pixel_ok (at_px pm' r c)" if "in_range pm' r c" for r c
  proof -
    have rc: "in_range pm r c" using that same_shape_in_range[OF sh assms(2)] by simp
    have "new_pixel r c k pm img ig = Inr (at_px pm' r c)"
      using assms(1,2) rc by (rule iterate_cells(2))
    then show ?thesis using assms(2) rc assms(3) by (rule new_pixel_ok)
  qed
  then show ?thesis using re by (simp add: grid_ok_def)
qed

lemma main_loop_grid_ok:
  assumes "main_loop i n s pm img = Inr pm'" "rect pm" "grid_ok pm"
  shows "rect pm' \<and> grid_ok pm'"
  using assms
proof (induction i n s pm img rule: main_loop.induct)
  case (1 i n s pm img)
  show ?case
  proof (cases "i < n")
    case False
    then have "pm' = pm" using "1.prems"(1) by (subst (asm) main_loop.simps) simp
    then show ?thesis using "1.prems" by simp
  next
    case True
    define ig where "ig = (\<not> i < 20)"
    have it: "(if i < 20 then iterate 7 pm img False else iterate 7 pm img True)
        = iterate 7 pm img ig" by (simp add: ig_def)
    from "1.prems"(1) True obtain pm1 where
      pm1: "(if i < 20 then iterate 7 pm img False else iterate 7 pm img True) = Inr pm1"
      and s0: "s \<noteq> 0"
      and rest: "main_loop (i + 1) n s pm1 img = Inr pm'"
      by (subst (asm) main_loop.simps) (auto split: sum.splits if_splits)
    have ok1: "rect pm1 \<and> grid_ok pm1"
      using pm1 "1.prems"(2,3) unfolding it by (rule iterate_grid_ok)
    show ?thesis
      using "1.IH"[OF True pm1 s0 rest] ok1 by simp
  qed
qed

subsection \<open>When a sweep is defined\<close>

text \<open>
  The new pixel is defined when the window size is not negative, no magnitude of the map is
  negative and the centre has a positive magnitude; maps with positive magnitudes stay so,
  and on them every sweep and the whole loop of \<^verbatim>\<open>main\<close> return a map.
\<close>

lemma interpolate_angle_single:
  assumes "weight p * magnitude p \<noteq> 0"
  shows "interpolate_angle [p] = Inr (if angle p \<ge> PI / 2 then angle p - PI else angle p)"
  using assms
  by (simp add: interpolate_angle_def sort_by_angle_def find_split.simps angle_sums.simps Let_def)

lemma center_qualifies:
  assumes "in_range old r c" "0 \<le> k"
  shows "at_px old r c \<in> set (qualified_neighbors r c k old old ig)"
proof -
  have "(r, c) \<in> set (window r c k old)" using assms by (rule center_in_window)
  moreover have "qualifies r c old old ig (r, c)" by (simp add: qualifies_def)
  ultimately have "(r, c) \<in> set (filter (qualifies r c old old ig) (window r c k old))"
    by simp
  then have "at_px old (fst (r, c)) (snd (r, c))
      \<in> (\<lambda>rc. at_px old (fst rc) (snd rc)) ` set (filter (qualifies r c old old ig) (window r c k old))"
    by (rule imageI)
  then show ?thesis unfolding qualified_neighbors_eq by simp
qed

lemma sum_list_pos_ex:
  assumes "\<forall>n\<in>set ns. 0 \<le> (f n :: real)" "x \<in> set ns" "0 < f x"
  shows "0 < (\<Sum>n\<leftarrow>ns. f n)"
  using assms
proof (induction ns)
  case Nil
  then show ?case by simp
next
  case (Cons a ns)
  have nn: "0 \<le> (\<Sum>n\<leftarrow>ns. f n)"
    by (rule sum_list_nonneg) (use Cons.prems(1) in auto)
  show ?case
  proof (cases "x = a")
    case True
    then show ?thesis using nn Cons.prems(3) by simp
  next
    case False
    then have "0 < (\<Sum>n\<leftarrow>ns. f n)" using Cons by auto
    moreover have "0 \<le> f a" using Cons.prems(1) by simp
    ultimately show ?thesis by simp
  qed
qed

lemma new_pixel_defined:
  assumes re: "rect old" and rc: "in_range old r c" and k: "0 \<le> k"
    and nn: "\<forall>r c. in_range old r c \<longrightarrow> 0 \<le> magnitude (at_px old r c)"
    and pos: "0 < magnitude (at_px old r c)"
  shows "\<exists>p. new_pixel r c k old img ig = Inr p"
proof -
  let ?Q = "qualified_neighbors r c k old old ig"
  let ?W = "bilateral_filter (r, c) ?Q img"
  have cin: "at_px old r c \<in> set ?Q" using rc k by (rule center_qualifies)
  then have Qne: "?Q \<noteq> []" by auto
  then have ge: "1 \<le> length ?Q" by (cases ?Q) auto
  have Wne: "?W \<noteq> []" using Qne by (simp add: bilateral_filter_def)
  have Wpos: "\<forall>n\<in>set ?W. 0 < weight n"
    using in_bilateral_filter bilateral_weight_pos by fastforce
  obtain m where m: "interpolate_magnitude ?W = Inr m"
    using interpolate_magnitude_defined[OF Wne Wpos] by blast
  have Qnn: "0 \<le> magnitude q" if "q \<in> set ?Q" for q
  proof -
    from in_qualified_neighbors[OF that] obtain rr cc where
      "(rr, cc) \<in> set (window r c k old)" "q = at_px old rr cc" by blast
    then show ?thesis using window_in_range[of "(rr, cc)"] nn by auto
  qed
  have mwnn: "\<forall>n\<in>set ?W. 0 \<le> magWeight n"
  proof
    fix n assume "n \<in> set ?W"
    then obtain q where q: "q \<in> set ?Q" "n = q\<lparr>weight := bilateral_weight (r, c) img q\<rparr>"
      using in_bilateral_filter by blast
    have "0 \<le> bilateral_weight (r, c) img q * magnitude q"
      using Qnn[OF q(1)] bilateral_weight_pos[of "(r, c)" img q] by simp
    then show "0 \<le> magWeight n" using q(2) by (simp add: magWeight_def)
  qed
  define n0 where "n0 = (at_px old r c)\<lparr>weight := bilateral_weight (r, c) img (at_px old r c)\<rparr>"
  have n0in: "n0 \<in> set ?W" using cin by (auto simp: bilateral_filter_def n0_def)
  have n0pos: "0 < magWeight n0"
    using pos bilateral_weight_pos[of "(r, c)" img "at_px old r c"]
    by (simp add: n0_def magWeight_def)
  have "0 < (\<Sum>n\<leftarrow>?W. magWeight n)" using mwnn n0in n0pos by (rule sum_list_pos_ex)
  then have "(\<Sum>n\<leftarrow>?W. magWeight n) \<noteq> 0" by simp
  then obtain a where a: "interpolate_angle ?W = Inr a"
    using interpolate_angle_defined[OF Wne] by blast
  show ?thesis
    unfolding new_pixel_eq[OF re rc] Let_def using ge m a by simp
qed

lemma new_pixel_pos:
  assumes np: "new_pixel r c k old img ig = Inr p" and re: "rect old" and rc: "in_range old r c"
    and pos: "grid_pos old"
  shows "0 < magnitude p"
  using np re rc
proof (cases rule: new_pixel_cases)
  case single
  then show ?thesis using pos rc by (simp add: grid_pos_def)
next
  case (many m a)
  let ?Q = "qualified_neighbors r c k old old ig"
  let ?W = "bilateral_filter (r, c) ?Q img"
  have Wne: "?W \<noteq> []" using many(1) by (auto simp: bilateral_filter_def)
  have Wmag: "0 < magnitude n \<and> 0 < weight n" if "n \<in> set ?W" for n
  proof -
    from in_bilateral_filter[OF that] obtain q where
      q: "q \<in> set ?Q" "n = q\<lparr>weight := bilateral_weight (r, c) img q\<rparr>" by blast
    from in_qualified_neighbors[OF q(1)] obtain rr cc where
      "(rr, cc) \<in> set (window r c k old)" "q = at_px old rr cc" by blast
    then have "0 < magnitude q" using window_in_range[of "(rr, cc)"] pos by (auto simp: grid_pos_def)
    then show ?thesis using q(2) bilateral_weight_pos by simp
  qed
  define m0 where "m0 = Min (magnitude ` set ?W)"
  have "m0 \<in> magnitude ` set ?W" unfolding m0_def using Wne by (intro Min_in) auto
  then have m0pos: "0 < m0" using Wmag by auto
  have "m0 \<le> m"
  proof (rule interpolate_magnitude_lower[OF many(2)])
    show "\<forall>n\<in>set ?W. 0 < weight n" using Wmag by blast
    show "\<forall>n\<in>set ?W. m0 \<le> magnitude n" unfolding m0_def by simp
  qed
  then show ?thesis using m0pos many(4) by simp
qed

lemma iterate_total_pos:
  assumes "rect pm" "grid_pos pm" "0 \<le> k"
  shows "\<exists>pm'. iterate k pm img ig = Inr pm' \<and> rect pm' \<and> grid_pos pm'"
proof -
  have "\<exists>pm'. iterate k pm img ig = Inr pm'"
  proof (rule iterate_total[OF assms(1)])
    fix r c assume rc: "in_range pm r c"
    show "\<exists>p. new_pixel r c k pm img ig = Inr p"
      using assms(1) rc assms(3)
    proof (rule new_pixel_defined)
      show "\<forall>r c. in_range pm r c \<longrightarrow> 0 \<le> magnitude (at_px pm r c)"
        using assms(2) by (auto simp: grid_pos_def intro: less_imp_le)
      show "0 < magnitude (at_px pm r c)" using assms(2) rc by (simp add: grid_pos_def)
    qed
  qed
  then obtain pm' where it: "iterate k pm img ig = Inr pm'" by blast
  have sh: "same_shape pm' pm" using it assms(1) by (rule iterate_cells(1))
  have re: "rect pm'" using sh assms(1) by (rule same_shape_rect)
  have "0 < magnitude (at_px pm' r c)" if "in_range pm' r c" for r c
  proof -
    have rc: "in_range pm r c" using that same_shape_in_range[OF sh assms(1)] by simp
    have "new_pixel r c k pm img ig = Inr (at_px pm' r c)"
      using it assms(1) rc by (rule iterate_cells(2))
    then show ?thesis using assms(1) rc assms(2) by (rule new_pixel_pos)
  qed
  then show ?thesis using it re by (auto simp: grid_pos_def)
qed

lemma main_loop_total:
  assumes "rect pm" "grid_pos pm" "s \<noteq> 0"
  shows "\<exists>pm'. main_loop i n s pm img = Inr pm'"
  using assms
proof (induction i n s pm img rule: main_loop.induct)
  case (1 i n s pm img)
  show ?case
  proof (cases "i < n")
    case False
    then show ?thesis by (subst main_loop.simps) simp
  next
    case True
    define ig where "ig = (\<not> i < 20)"
    have it: "(if i < 20 then iterate 7 pm img False else iterate 7 pm img True)
        = iterate 7 pm img ig" by (simp add: ig_def)
    obtain pm1 where pm1: "iterate 7 pm img ig = Inr pm1" "rect pm1" "grid_pos pm1"
      using iterate_total_pos[OF "1.prems"(1,2), of 7 img ig] by auto
    have pm1': "(if i < 20 then iterate 7 pm img False else iterate 7 pm img True) = Inr pm1"
      using pm1(1) it by simp
    have "\<exists>pm'. main_loop (i + 1) n s pm1 img = Inr pm'"
      using "1.IH"[OF True pm1' "1.prems"(3) pm1(2,3) "1.prems"(3)] .
    then show ?thesis
      using True pm1' "1.prems"(3) by (subst main_loop.simps) simp
  qed
qed

subsection \<open>The construction\<close>

lemmas grid_eval = qualified_neighbors_def Let_def at_px_def set_px_def upto.simps
  signed_divide_int_def px_def

lemma construct_cols_props:
  assumes "construct_cols r cs gx gy q mg ic nc = (ps, nc')"
  shows "length ps = length cs \<and> (\<forall>p\<in>set ps. fresh_pixel_ok mg p)"
  using assms
proof (induction cs arbitrary: nc ps nc')
  case Nil
  then show ?case by simp
next
  case (Cons c cs)
  obtain nc1 cl where rm: "remap_cluster nc (ic ! nat r ! nat c) = (nc1, cl)"
    by (cases "remap_cluster nc (ic ! nat r ! nat c)")
  obtain ps1 nc2 where rest: "construct_cols r cs gx gy q mg ic nc1 = (ps1, nc2)"
    by (cases "construct_cols r cs gx gy q mg ic nc1")
  have ps: "ps = \<lparr>position = (r, c), cluster = cl, dx = gx r c, dy = gy r c,
               angle = arctan (q r c), magnitude = mg r c, weight = 0\<rparr> # ps1"
    using Cons.prems rm rest by (simp add: Let_def)
  have "fresh_pixel_ok mg \<lparr>position = (r, c), cluster = cl, dx = gx r c, dy = gy r c,
               angle = arctan (q r c), magnitude = mg r c, weight = 0\<rparr>"
    using arctan_lbound[of "q r c"] arctan_ubound[of "q r c"]
    by (auto simp: fresh_pixel_ok_def PI_def)
  then show ?case using Cons.IH[OF rest] ps by simp
qed

lemma construct_rows_props:
  "length (construct_rows rs cs gx gy q mg ic nc) = length rs \<and>
   (\<forall>row\<in>set (construct_rows rs cs gx gy q mg ic nc).
      length row = length cs \<and> (\<forall>p\<in>set row. fresh_pixel_ok mg p))"
proof (induction rs arbitrary: nc)
  case Nil
  then show ?case by simp
next
  case (Cons r rs)
  obtain row nc1 where row: "construct_cols r cs gx gy q mg ic nc = (row, nc1)"
    by (cases "construct_cols r cs gx gy q mg ic nc")
  show ?case
    using construct_cols_props[OF row] Cons.IH[of nc1] row by simp
qed

lemma at_px_in_row:
  assumes "rect pm" "in_range pm r c"
  shows "pm ! nat r \<in> set pm \<and> at_px pm r c \<in> set (pm ! nat r)"
proof -
  have r: "nat r < length pm" using assms(2) by (auto simp: in_range_def)
  have "length (pm ! nat r) = length (pm ! 0)" using assms(1) r by (rule rect_row)
  then have c: "nat c < length (pm ! nat r)" using assms(2) by (auto simp: in_range_def)
  show ?thesis using r c by (simp add: at_px_def)
qed

lemma construct_pixel_map_ok:
  assumes "construct_pixel_map rows cols gx gy q ic = Inr pm"
  shows "rect pm"
    and "in_range pm r c \<Longrightarrow> - PI / 2 < angle (at_px pm r c) \<and> angle (at_px pm r c) < PI / 2
           \<and> 0 \<le> magnitude (at_px pm r c)"
proof -
  let ?mg = "cv_magnitude gx gy"
  have pm: "pm = construct_rows [0..rows - 1] [0..cols - 1] gx gy q ?mg ic []"
    and rows: "0 < rows"
    using assms by (auto simp: construct_pixel_map_def Let_def split: if_splits)
  note props = construct_rows_props[of "[0..rows - 1]" "[0..cols - 1]" gx gy q ?mg ic "[]"]
  have len: "length pm = nat rows" using props pm by simp
  have rowlen: "\<forall>row\<in>set pm. length row = length [0..cols - 1]" using props pm by blast
  show re: "rect pm"
  proof (rule rectI)
    show "pm \<noteq> []" using len rows by auto
    fix i assume "i < length pm"
    then have "length (pm ! i) = length [0..cols - 1]" using rowlen by simp
    moreover have "length (pm ! 0) = length [0..cols - 1]" using rowlen len rows by simp
    ultimately show "length (pm ! i) = length (pm ! 0)" by simp
  qed
  show "- PI / 2 < angle (at_px pm r c) \<and> angle (at_px pm r c) < PI / 2
           \<and> 0 \<le> magnitude (at_px pm r c)" if "in_range pm r c"
  proof -
    have "fresh_pixel_ok ?mg (at_px pm r c)"
      using at_px_in_row[OF re that] props pm by blast
    then show ?thesis by (auto simp: fresh_pixel_ok_def cv_magnitude_def)
  qed
qed

text \<open>The construction gives every pixel its own position.\<close>

lemma construct_cols_position:
  assumes "construct_cols r cs gx gy q mg ic nc = (ps, nc')" "i < length cs"
  shows "position (ps ! i) = (r, cs ! i)"
  using assms
proof (induction cs arbitrary: nc ps nc' i)
  case Nil
  then show ?case by simp
next
  case (Cons c cs)
  obtain nc1 cl where rm: "remap_cluster nc (ic ! nat r ! nat c) = (nc1, cl)"
    by (cases "remap_cluster nc (ic ! nat r ! nat c)")
  obtain ps1 nc2 where rest: "construct_cols r cs gx gy q mg ic nc1 = (ps1, nc2)"
    by (cases "construct_cols r cs gx gy q mg ic nc1")
  have ps: "ps = \<lparr>position = (r, c), cluster = cl, dx = gx r c, dy = gy r c,
               angle = arctan (q r c), magnitude = mg r c, weight = 0\<rparr> # ps1"
    using Cons.prems(1) rm rest by (simp add: Let_def)
  show ?case
  proof (cases i)
    case 0
    then show ?thesis using ps by simp
  next
    case (Suc j)
    then have "j < length cs" using Cons.prems(2) by simp
    then show ?thesis using Cons.IH[OF rest] ps Suc by simp
  qed
qed

lemma construct_rows_position:
  assumes "i < length rs" "j < length cs"
  shows "position (construct_rows rs cs gx gy q mg ic nc ! i ! j) = (rs ! i, cs ! j)"
  using assms
proof (induction rs arbitrary: nc i)
  case Nil
  then show ?case by simp
next
  case (Cons r rs)
  obtain row nc1 where row: "construct_cols r cs gx gy q mg ic nc = (row, nc1)"
    by (cases "construct_cols r cs gx gy q mg ic nc")
  show ?case
  proof (cases i)
    case 0
    then show ?thesis using construct_cols_position[OF row Cons.prems(2)] row by simp
  next
    case (Suc i')
    then have "i' < length rs" using Cons.prems(1) by simp
    then show ?thesis using Cons.IH[OF _ Cons.prems(2), of i' nc1] row Suc by simp
  qed
qed

lemma construct_pixel_map_position:
  assumes "construct_pixel_map rows cols gx gy q ic = Inr pm" "in_range pm r c"
  shows "position (at_px pm r c) = (r, c)"
proof -
  let ?mg = "cv_magnitude gx gy"
  have pm: "pm = construct_rows [0..rows - 1] [0..cols - 1] gx gy q ?mg ic []"
    using assms(1) by (auto simp: construct_pixel_map_def Let_def split: if_splits)
  note props = construct_rows_props[of "[0..rows - 1]" "[0..cols - 1]" gx gy q ?mg ic "[]"]
  have re: "rect pm" using assms(1) by (rule construct_pixel_map_ok(1))
  have len: "length pm = length [0..rows - 1]" using props pm by simp
  have "nat r < length pm" using assms(2) by (auto simp: in_range_def)
  then have r: "nat r < length [0..rows - 1]" using len by simp
  have "pm ! 0 \<in> set pm" using rect_nonempty[OF re] by simp
  then have "length (pm ! 0) = length [0..cols - 1]" using props pm by blast
  moreover have "nat c < length (pm ! 0)" using assms(2) by (auto simp: in_range_def)
  ultimately have c: "nat c < length [0..cols - 1]" by simp
  have "position (at_px pm r c) = ([0..rows - 1] ! nat r, [0..cols - 1] ! nat c)"
    unfolding at_px_def pm using r c by (rule construct_rows_position)
  moreover have "[0..rows - 1] ! nat r = 0 + int (nat r)" using r by (intro nth_upto) simp
  moreover have "[0..cols - 1] ! nat c = 0 + int (nat c)" using c by (intro nth_upto) simp
  moreover have "0 \<le> r" "0 \<le> c" using assms(2) by (simp_all add: in_range_def)
  ultimately show ?thesis by simp
qed

subsection \<open>The loop of main as a sequence of sweeps\<close>

lemma main_loop_run_sweeps:
  assumes "s \<noteq> 0"
  shows "main_loop i n s pm img = run_sweeps 7 (phase_flags i n) pm img"
  using assms
proof (induction i n s pm img rule: main_loop.induct)
  case (1 i n s pm img)
  show ?case
  proof (cases "i < n")
    case False
    then have "[i..n - 1] = []" by simp
    then show ?thesis using False by (subst main_loop.simps) (simp add: phase_flags_def)
  next
    case True
    then have up: "[i..n - 1] = i # [i + 1..n - 1]" by (simp add: upto_rec1)
    have fl: "phase_flags i n = (20 \<le> i) # phase_flags (i + 1) n"
      by (simp add: phase_flags_def up)
    have it: "(if i < 20 then iterate 7 pm img False else iterate 7 pm img True)
        = iterate 7 pm img (20 \<le> i)" by auto
    show ?thesis
    proof (cases "iterate 7 pm img (20 \<le> i)")
      case (Inl e)
      then show ?thesis using True it by (subst main_loop.simps) (simp add: fl)
    next
      case (Inr pm1)
      have "main_loop (i + 1) n s pm1 img = run_sweeps 7 (phase_flags (i + 1) n) pm1 img"
        using "1.IH"[OF True _ "1.prems" "1.prems"] Inr it by simp
      then show ?thesis using True it Inr "1.prems" by (subst main_loop.simps) (simp add: fl)
    qed
  qed
qed



subsection \<open>Facts about the concrete maps\<close>

lemma in_range_1x2:
  assumes "length pm = 1" "length (pm ! 0) = 2"
  shows "in_range pm r c \<longleftrightarrow> r = 0 \<and> (c = 0 \<or> c = 1)"
  using assms by (auto simp: in_range_def)

lemma rect_1xn: "rect [row]"
  by (simp add: rect_def)

lemma grid_pos_1x2:
  assumes "0 < magnitude a" "0 < magnitude b"
  shows "grid_pos [ [a, b] ]"
  using assms by (auto simp: grid_pos_def in_range_1x2 at_px_def)

lemma main_loop_same_shape:
  assumes "main_loop i n s pm img = Inr pm'" "rect pm"
  shows "same_shape pm' pm"
  using assms
proof (induction i n s pm img rule: main_loop.induct)
  case (1 i n s pm img)
  show ?case
  proof (cases "i < n")
    case False
    then have "pm' = pm" using "1.prems"(1) by (subst (asm) main_loop.simps) simp
    then show ?thesis by (simp add: same_shape_refl)
  next
    case True
    define ig where "ig = (\<not> i < 20)"
    have it: "(if i < 20 then iterate 7 pm img False else iterate 7 pm img True)
        = iterate 7 pm img ig" by (simp add: ig_def)
    from "1.prems"(1) True obtain pm1 where
      pm1: "(if i < 20 then iterate 7 pm img False else iterate 7 pm img True) = Inr pm1"
      and s0: "s \<noteq> 0"
      and rest: "main_loop (i + 1) n s pm1 img = Inr pm'"
      by (subst (asm) main_loop.simps) (auto split: sum.splits if_splits)
    have sh1: "same_shape pm1 pm"
      using pm1 "1.prems"(2) unfolding it by (rule iterate_cells(1))
    have re1: "rect pm1" using sh1 "1.prems"(2) by (rule same_shape_rect)
    have "same_shape pm' pm1" using "1.IH"[OF True pm1 s0 rest re1] .
    then show ?thesis using sh1 by (rule same_shape_trans)
  qed
qed

lemma construct_fresh_grid:
  "construct_pixel_map 1 2 (\<lambda>r c. 1) (\<lambda>r c. 1) (\<lambda>r c. - 1) [ [5, 5] ] = Inr fresh_grid"
  by (simp add: construct_pixel_map_def Let_def upto.simps remap_cluster_def cv_magnitude_def
      fresh_grid_def)

lemma interpolate_angle_zero_magnitudes:
  assumes "ns \<noteq> []" "\<forall>n\<in>set ns. magnitude n = 0"
  shows "interpolate_angle ns = Inl NonFinite"
proof -
  have "(\<Sum>n\<leftarrow>ns. magWeight n) = (\<Sum>n\<leftarrow>ns. 0)"
    by (rule arg_cong[where f = sum_list], rule map_cong[OF refl])
      (use assms(2) in \<open>simp add: magWeight_def\<close>)
  then have "(\<Sum>n\<leftarrow>ns. magWeight n) = 0" by simp
  then show ?thesis by (simp add: interpolate_angle_eq[OF assms(1)])
qed

lemma updateCell_zero_magnitudes:
  assumes "pm \<noteq> []" "2 \<le> length (qualified_neighbors r c k pm old ig)"
    and "\<forall>q\<in>set (qualified_neighbors r c k pm old ig). magnitude q = 0"
  shows "updateCell r c k pm old img ig = Inl NonFinite"
proof -
  let ?Q = "qualified_neighbors r c k pm old ig"
  let ?W = "bilateral_filter (r, c) ?Q img"
  have Qne: "?Q \<noteq> []" using assms(2) by auto
  have Wne: "?W \<noteq> []" using Qne by (simp add: bilateral_filter_def)
  have Wpos: "\<forall>n\<in>set ?W. 0 < weight n"
    using in_bilateral_filter bilateral_weight_pos by fastforce
  obtain m where m: "interpolate_magnitude ?W = Inr m"
    using interpolate_magnitude_defined[OF Wne Wpos] by blast
  have "\<forall>n\<in>set ?W. magnitude n = 0"
    using assms(3) by (auto simp: bilateral_filter_def)
  then have a: "interpolate_angle ?W = Inl NonFinite"
    using Wne by (intro interpolate_angle_zero_magnitudes)
  show ?thesis
    unfolding updateCell_def Let_def using assms(1,2) m a by simp
qed

lemma seam_triple:
  assumes "0 < w"
  shows "interpolate_angle
      [(px 0 0 0 (89 * PI / 180) 1)\<lparr>weight := w\<rparr>, (px 0 1 0 0 0)\<lparr>weight := w0\<rparr>,
       (px 0 2 0 (- 89 * PI / 180) 1)\<lparr>weight := w\<rparr>] = Inr (- PI / 2)"
  using assms PI_pos
  by (simp add: interpolate_angle_def sort_by_angle_def find_split.simps angle_sums.simps
      Let_def px_def)

lemma seam_weights:
  "bilateral_weight (0, 1) gray (px 0 0 0 a m) = bilateral_weight (0, 1) gray (px 0 2 0 a' m')"
  by (simp add: bilateral_weight_def gray_def px_def sub2i_def norm2i_def)

lemma seam_center:
  "\<exists>m. new_pixel 0 1 7 seam_grid gray False = Inr ((px 0 1 0 0 0)\<lparr>magnitude := m, angle := - PI / 2\<rparr>)"
proof -
  have re: "rect seam_grid" by (simp add: seam_grid_def rect_1xn)
  have rc: "in_range seam_grid 0 1" by (simp add: seam_grid_def in_range_def)
  have q: "qualified_neighbors 0 1 7 seam_grid seam_grid False
      = [px 0 0 0 (89 * PI / 180) 1, px 0 1 0 0 0, px 0 2 0 (- 89 * PI / 180) 1]"
    by (simp add: seam_grid_def grid_eval)
  define w where "w = bilateral_weight (0, 1) gray (px 0 0 0 (89 * PI / 180) 1)"
  define w0 where "w0 = bilateral_weight (0, 1) gray (px 0 1 0 0 0)"
  have w2: "bilateral_weight (0, 1) gray (px 0 2 0 (- 89 * PI / 180) 1) = w"
    unfolding w_def by (rule seam_weights[symmetric])
  have W: "bilateral_filter (0, 1) [px 0 0 0 (89 * PI / 180) 1, px 0 1 0 0 0, px 0 2 0 (- 89 * PI / 180) 1] gray
      = [(px 0 0 0 (89 * PI / 180) 1)\<lparr>weight := w\<rparr>, (px 0 1 0 0 0)\<lparr>weight := w0\<rparr>,
         (px 0 2 0 (- 89 * PI / 180) 1)\<lparr>weight := w\<rparr>]"
    using w2 by (simp add: bilateral_filter_def w_def[symmetric] w0_def[symmetric])
  have wpos: "0 < w" unfolding w_def by (rule bilateral_weight_pos)
  have w0pos: "0 < w0" unfolding w0_def by (rule bilateral_weight_pos)
  have a: "interpolate_angle (bilateral_filter (0, 1) (qualified_neighbors 0 1 7 seam_grid seam_grid False) gray)
      = Inr (- PI / 2)"
    unfolding q W using wpos by (rule seam_triple)
  have "\<exists>m. interpolate_magnitude (bilateral_filter (0, 1) (qualified_neighbors 0 1 7 seam_grid seam_grid False) gray) = Inr m"
    by (rule interpolate_magnitude_defined)
      (use in_bilateral_filter bilateral_weight_pos in \<open>fastforce simp: q bilateral_filter_def\<close>)+
  then obtain m where m: "interpolate_magnitude (bilateral_filter (0, 1) (qualified_neighbors 0 1 7 seam_grid seam_grid False) gray) = Inr m"
    by blast
  have c: "at_px seam_grid 0 1 = px 0 1 0 0 0" by (simp add: seam_grid_def at_px_def)
  have "new_pixel 0 1 7 seam_grid gray False = Inr ((px 0 1 0 0 0)\<lparr>magnitude := m, angle := - PI / 2\<rparr>)"
    unfolding new_pixel_eq[OF re rc] Let_def using a m by (simp add: q c)
  then show ?thesis by blast
qed

lemma main_loop_once:
  assumes "iterate 7 pm img False = Inr pm1"
  shows "main_loop 0 1 1 pm img = Inr pm1"
proof -
  have "main_loop 1 1 1 pm1 img = Inr pm1" by (subst main_loop.simps) simp
  then show ?thesis using assms by (subst main_loop.simps) simp
qed

subsection \<open>Cells of one cluster do not see the other clusters\<close>

lemma agree_onD:
  assumes "agree_on cl pm1 pm2 img1 img2" "in_range pm2 r c"
  shows "cluster (at_px pm1 r c) = cluster (at_px pm2 r c)"
    and "cluster (at_px pm2 r c) = cl \<Longrightarrow> at_px pm1 r c = at_px pm2 r c"
    and "cluster (at_px pm2 r c) = cl \<Longrightarrow> position (at_px pm2 r c) = (r, c)"
    and "cluster (at_px pm2 r c) = cl \<Longrightarrow> img1 r c = img2 r c"
proof -
  have "(r, c) \<in> set (all_cells pm2)" using assms(2) by (simp add: set_all_cells)
  then have "cluster (at_px pm1 r c) = cluster (at_px pm2 r c)
        \<and> (cluster (at_px pm2 r c) = cl \<longrightarrow>
             at_px pm1 r c = at_px pm2 r c \<and> position (at_px pm2 r c) = (r, c)
             \<and> img1 r c = img2 r c)"
    using assms(1) unfolding agree_on_def by fastforce
  then show "cluster (at_px pm1 r c) = cluster (at_px pm2 r c)"
    and "cluster (at_px pm2 r c) = cl \<Longrightarrow> at_px pm1 r c = at_px pm2 r c"
    and "cluster (at_px pm2 r c) = cl \<Longrightarrow> position (at_px pm2 r c) = (r, c)"
    and "cluster (at_px pm2 r c) = cl \<Longrightarrow> img1 r c = img2 r c"
    by blast+
qed

lemma agree_onI:
  assumes "same_shape pm1 pm2"
    and "\<And>r c. in_range pm2 r c \<Longrightarrow>
        cluster (at_px pm1 r c) = cluster (at_px pm2 r c)
        \<and> (cluster (at_px pm2 r c) = cl \<longrightarrow>
             at_px pm1 r c = at_px pm2 r c \<and> position (at_px pm2 r c) = (r, c)
             \<and> img1 r c = img2 r c)"
  shows "agree_on cl pm1 pm2 img1 img2"
proof -
  have "cluster (at_px pm1 (fst rc) (snd rc)) = cluster (at_px pm2 (fst rc) (snd rc))
        \<and> (cluster (at_px pm2 (fst rc) (snd rc)) = cl \<longrightarrow>
             at_px pm1 (fst rc) (snd rc) = at_px pm2 (fst rc) (snd rc)
             \<and> position (at_px pm2 (fst rc) (snd rc)) = rc
             \<and> img1 (fst rc) (snd rc) = img2 (fst rc) (snd rc))"
    if "rc \<in> set (all_cells pm2)" for rc
  proof -
    have "in_range pm2 (fst rc) (snd rc)" using that by (simp add: set_all_cells)
    from assms(2)[OF this] show ?thesis by simp
  qed
  then show ?thesis using assms(1) unfolding agree_on_def by blast
qed

lemma new_pixel_agree:
  assumes ag: "agree_on cl pm1 pm2 img1 img2" and re2: "rect pm2"
    and rc: "in_range pm2 r c" and cl: "cluster (at_px pm2 r c) = cl"
  shows "new_pixel r c k pm1 img1 ig = new_pixel r c k pm2 img2 ig"
proof -
  have sh: "same_shape pm1 pm2" using ag by (simp add: agree_on_def)
  have re1: "rect pm1" using sh re2 by (rule same_shape_rect)
  have rc1: "in_range pm1 r c" using rc same_shape_in_range[OF sh re2] by simp
  have w: "window r c k pm1 = window r c k pm2" using sh re2 by (rule same_shape_window)
  note ctr = agree_onD[OF ag rc]
  have center: "at_px pm1 r c = at_px pm2 r c" using ctr(2) cl by simp
  have qual: "qualifies r c pm1 pm1 ig x = qualifies r c pm2 pm2 ig x"
    if "x \<in> set (window r c k pm2)" for x
  proof -
    have xr: "in_range pm2 (fst x) (snd x)" using that by (rule window_in_range)
    note ax = agree_onD[OF ag xr]
    show ?thesis
    proof (cases "cluster (at_px pm2 (fst x) (snd x)) = cl")
      case True
      then show ?thesis using ax(2) center by (simp add: qualifies_def)
    next
      case False
      then show ?thesis using ax(1) center cl by (simp add: qualifies_def)
    qed
  qed
  have f: "filter (qualifies r c pm1 pm1 ig) (window r c k pm2)
      = filter (qualifies r c pm2 pm2 ig) (window r c k pm2)"
    by (rule filter_cong[OF refl]) (rule qual)
  have Q: "qualified_neighbors r c k pm1 pm1 ig = qualified_neighbors r c k pm2 pm2 ig"
    unfolding qualified_neighbors_eq w f
  proof (rule map_cong[OF refl])
    fix x assume "x \<in> set (filter (qualifies r c pm2 pm2 ig) (window r c k pm2))"
    then have xw: "x \<in> set (window r c k pm2)" and xq: "qualifies r c pm2 pm2 ig x" by simp_all
    have xr: "in_range pm2 (fst x) (snd x)" using xw by (rule window_in_range)
    have "cluster (at_px pm2 (fst x) (snd x)) = cl" using xq cl by (simp add: qualifies_def)
    then show "at_px pm1 (fst x) (snd x) = at_px pm2 (fst x) (snd x)"
      using agree_onD(2)[OF ag xr] by simp
  qed
  let ?Q = "qualified_neighbors r c k pm2 pm2 ig"
  have W: "bilateral_filter (r, c) ?Q img1 = bilateral_filter (r, c) ?Q img2"
    unfolding bilateral_filter_def
  proof (rule map_cong[OF refl])
    fix q assume "q \<in> set ?Q"
    from in_qualified_neighbors[OF this] obtain rr cc where
      x: "(rr, cc) \<in> set (window r c k pm2)" "q = at_px pm2 rr cc"
        "cluster (at_px pm2 rr cc) = cluster (at_px pm2 r c)" by blast
    have xr: "in_range pm2 rr cc" using window_in_range[OF x(1)] by simp
    have xcl: "cluster (at_px pm2 rr cc) = cl" using x(3) cl by simp
    have pos: "position q = (rr, cc)" using agree_onD(3)[OF ag xr xcl] x(2) by simp
    have col: "img1 rr cc = img2 rr cc" using agree_onD(4)[OF ag xr xcl] .
    have "bilateral_weight (r, c) img1 q = bilateral_weight (r, c) img2 q"
      using pos col ctr(4) cl by (simp add: bilateral_weight_def)
    then show "q\<lparr>weight := bilateral_weight (r, c) img1 q\<rparr>
        = q\<lparr>weight := bilateral_weight (r, c) img2 q\<rparr>" by simp
  qed
  show ?thesis
    unfolding new_pixel_eq[OF re1 rc1] new_pixel_eq[OF re2 rc] Let_def Q W center ..
qed

lemma iterate_agree:
  assumes it1: "iterate k pm1 img1 ig = Inr pm1'" and it2: "iterate k pm2 img2 ig = Inr pm2'"
    and re2: "rect pm2" and ag: "agree_on cl pm1 pm2 img1 img2"
  shows "rect pm2' \<and> agree_on cl pm1' pm2' img1 img2"
proof -
  have sh: "same_shape pm1 pm2" using ag by (simp add: agree_on_def)
  have re1: "rect pm1" using sh re2 by (rule same_shape_rect)
  have sh1: "same_shape pm1' pm1" using it1 re1 by (rule iterate_cells(1))
  have sh2: "same_shape pm2' pm2" using it2 re2 by (rule iterate_cells(1))
  have re2': "rect pm2'" using sh2 re2 by (rule same_shape_rect)
  have sh': "same_shape pm1' pm2'"
    using sh1 sh sh2 by (meson same_shape_trans same_shape_sym)
  have cell: "cluster (at_px pm1' r c) = cluster (at_px pm2' r c)
        \<and> (cluster (at_px pm2' r c) = cl \<longrightarrow>
             at_px pm1' r c = at_px pm2' r c \<and> position (at_px pm2' r c) = (r, c)
             \<and> img1 r c = img2 r c)" if "in_range pm2' r c" for r c
  proof -
    have rc2: "in_range pm2 r c" using that same_shape_in_range[OF sh2 re2] by simp
    have rc1: "in_range pm1 r c" using rc2 same_shape_in_range[OF sh re2] by simp
    have n1: "new_pixel r c k pm1 img1 ig = Inr (at_px pm1' r c)"
      using it1 re1 rc1 by (rule iterate_cells(2))
    have n2: "new_pixel r c k pm2 img2 ig = Inr (at_px pm2' r c)"
      using it2 re2 rc2 by (rule iterate_cells(2))
    obtain m1 a1 where f1: "at_px pm1' r c = (at_px pm1 r c)\<lparr>magnitude := m1, angle := a1\<rparr>"
      using new_pixel_fields[OF n1 re1 rc1] by blast
    obtain m2 a2 where f2: "at_px pm2' r c = (at_px pm2 r c)\<lparr>magnitude := m2, angle := a2\<rparr>"
      using new_pixel_fields[OF n2 re2 rc2] by blast
    note a = agree_onD[OF ag rc2]
    have c: "cluster (at_px pm1' r c) = cluster (at_px pm2' r c)" using f1 f2 a(1) by simp
    have "at_px pm1' r c = at_px pm2' r c \<and> position (at_px pm2' r c) = (r, c)
        \<and> img1 r c = img2 r c" if cl': "cluster (at_px pm2' r c) = cl"
    proof -
      have cl2: "cluster (at_px pm2 r c) = cl" using cl' f2 by simp
      have "new_pixel r c k pm1 img1 ig = new_pixel r c k pm2 img2 ig"
        using ag re2 rc2 cl2 by (rule new_pixel_agree)
      then have "at_px pm1' r c = at_px pm2' r c" using n1 n2 by simp
      moreover have "position (at_px pm2' r c) = (r, c)" using a(3)[OF cl2] f2 by simp
      ultimately show ?thesis using a(4)[OF cl2] by simp
    qed
    then show ?thesis using c by blast
  qed
  show ?thesis using re2' agree_onI[OF sh'] cell by blast
qed

lemma run_sweeps_agree:
  assumes "run_sweeps k flags pm1 img1 = Inr pm1'" "run_sweeps k flags pm2 img2 = Inr pm2'"
    and "rect pm2" "agree_on cl pm1 pm2 img1 img2"
  shows "rect pm2' \<and> agree_on cl pm1' pm2' img1 img2"
  using assms
proof (induction flags arbitrary: pm1 pm2)
  case Nil
  then show ?case by simp
next
  case (Cons ig flags)
  from Cons.prems(1) obtain q1 where q1: "iterate k pm1 img1 ig = Inr q1"
    "run_sweeps k flags q1 img1 = Inr pm1'" by (auto split: sum.splits)
  from Cons.prems(2) obtain q2 where q2: "iterate k pm2 img2 ig = Inr q2"
    "run_sweeps k flags q2 img2 = Inr pm2'" by (auto split: sum.splits)
  have "rect q2 \<and> agree_on cl q1 q2 img1 img2"
    using q1(1) q2(1) Cons.prems(3,4) by (rule iterate_agree)
  then show ?case using Cons.IH[OF q1(2) q2(2)] by simp
qed

lemma iterate_cluster:
  assumes "iterate k pm img ig = Inr pm'" "rect pm" "in_range pm r c"
  shows "cluster (at_px pm' r c) = cluster (at_px pm r c)"
proof -
  have "new_pixel r c k pm img ig = Inr (at_px pm' r c)" using assms by (rule iterate_cells(2))
  then obtain m a where "at_px pm' r c = (at_px pm r c)\<lparr>magnitude := m, angle := a\<rparr>"
    using new_pixel_fields[OF _ assms(2,3)] by blast
  then show ?thesis by simp
qed

lemma run_sweeps_shape_cluster:
  assumes "run_sweeps k flags pm img = Inr pm'" "rect pm"
  shows "same_shape pm' pm"
    and "in_range pm r c \<Longrightarrow> cluster (at_px pm' r c) = cluster (at_px pm r c)"
proof -
  have "same_shape pm' pm \<and> (in_range pm r c \<longrightarrow> cluster (at_px pm' r c) = cluster (at_px pm r c))"
    using assms
  proof (induction flags arbitrary: pm)
    case Nil
    then show ?case by (simp add: same_shape_refl)
  next
    case (Cons ig flags)
    from Cons.prems(1) obtain q where q: "iterate k pm img ig = Inr q"
      "run_sweeps k flags q img = Inr pm'" by (auto split: sum.splits)
    have sh: "same_shape q pm" using q(1) Cons.prems(2) by (rule iterate_cells(1))
    have rq: "rect q" using sh Cons.prems(2) by (rule same_shape_rect)
    have IH: "same_shape pm' q \<and> (in_range q r c \<longrightarrow> cluster (at_px pm' r c) = cluster (at_px q r c))"
      using Cons.IH[OF q(2) rq] .
    have "same_shape pm' pm" using IH sh by (blast intro: same_shape_trans)
    moreover have "cluster (at_px pm' r c) = cluster (at_px pm r c)" if rc: "in_range pm r c"
    proof -
      have "in_range q r c" using rc same_shape_in_range[OF sh Cons.prems(2)] by simp
      then have "cluster (at_px pm' r c) = cluster (at_px q r c)" using IH by simp
      then show ?thesis using iterate_cluster[OF q(1) Cons.prems(2) rc] by simp
    qed
    ultimately show ?case by simp
  qed
  then show "same_shape pm' pm"
    and "in_range pm r c \<Longrightarrow> cluster (at_px pm' r c) = cluster (at_px pm r c)" by simp_all
qed

subsection \<open>The gate after the first sweep\<close>

lemma grid_pos_rows:
  assumes "rect pm" "\<forall>row\<in>set pm. \<forall>p\<in>set row. 0 < magnitude p"
  shows "grid_pos pm"
  unfolding grid_pos_def using at_px_in_row[OF assms(1)] assms(2) by blast

lemma run_sweeps_total:
  assumes "rect pm" "grid_pos pm" "0 \<le> k"
  shows "\<exists>pm'. run_sweeps k flags pm img = Inr pm'"
  using assms
proof (induction flags arbitrary: pm)
  case Nil
  then show ?case by simp
next
  case (Cons ig flags)
  obtain q where q: "iterate k pm img ig = Inr q" "rect q" "grid_pos q"
    using iterate_total_pos[OF Cons.prems, of img ig] by auto
  then show ?case using Cons.IH[OF q(2,3) Cons.prems(3)] by simp
qed

lemma spatial_weight_two:
  "gaussian spatialFilter 0 \<le> 2 * gaussian spatialFilter 2" "0 < gaussian spatialFilter 2"
proof -
  have e: "1 / 2 \<le> exp (- (1 / 2) :: real)"
    using exp_ge_add_one_self[of "- (1 / 2) :: real"] by simp
  have d: "0 < 2 * sqrt (2 * PI)" using PI_pos by simp
  have g0: "gaussian spatialFilter 0 = 1 / (2 * sqrt (2 * PI))"
    by (simp add: gaussian_def spatialFilter_def)
  have g2: "gaussian spatialFilter 2 = exp (- (1 / 2)) / (2 * sqrt (2 * PI))"
    by (simp add: gaussian_def spatialFilter_def)
  have "1 / (2 * sqrt (2 * PI)) \<le> 2 * (exp (- (1 / 2)) / (2 * sqrt (2 * PI)))"
  proof -
    have "1 \<le> 2 * exp (- (1 / 2) :: real)" using e by simp
    then have "1 / (2 * sqrt (2 * PI)) \<le> (2 * exp (- (1 / 2))) / (2 * sqrt (2 * PI))"
      using d by (intro divide_right_mono) simp_all
    then show ?thesis by simp
  qed
  then show "gaussian spatialFilter 0 \<le> 2 * gaussian spatialFilter 2" by (simp only: g0 g2)
  show "0 < gaussian spatialFilter 2" by (rule gaussian_pos) (simp add: spatialFilter_def)
qed

lemma gate_weights:
  "bilateral_weight (0, 2) gray (px 0 0 0 a m) = gaussian spatialFilter 2 * gaussian colorFilter 0"
  "bilateral_weight (0, 2) gray (px 0 2 0 a m) = gaussian spatialFilter 0 * gaussian colorFilter 0"
  "bilateral_weight (0, 2) gray (px 0 4 0 a m) = gaussian spatialFilter 2 * gaussian colorFilter 0"
  by (simp_all add: bilateral_weight_def gray_def px_def sub2i_def norm2i_def sub3b_def
      norm3b_def sat_sub_def)

lemma gate_mean:
  assumes "0 < a" "b \<le> 2 * a" "0 < b"
  shows "2 < (a * 2 + (b * 1 + a * 100)) / (a + (b + a) :: real)"
proof -
  have "0 < a + (b + a)" using assms by simp
  moreover have "2 * (a + (b + a)) < a * 2 + (b * 1 + a * 100)" using assms by simp
  ultimately show ?thesis by (simp add: pos_less_divide_eq)
qed

lemma gate_grid_sweep:
  assumes it: "iterate 7 gate_grid gray False = Inr pm1"
  shows "at_px pm1 0 0 = px 0 0 0 0 2" and "2 < magnitude (at_px pm1 0 2)"
proof -
  have re: "rect gate_grid" by (simp add: gate_grid_def rect_1xn)
  have r0: "in_range gate_grid 0 0" and r2: "in_range gate_grid 0 2"
    by (simp_all add: gate_grid_def in_range_def)
  have n0: "new_pixel 0 0 7 gate_grid gray False = Inr (at_px pm1 0 0)"
    using it re r0 by (rule iterate_cells(2))
  have q0: "qualified_neighbors 0 0 7 gate_grid gate_grid False = [px 0 0 0 0 2]"
    by (simp add: gate_grid_def grid_eval)
  show "at_px pm1 0 0 = px 0 0 0 0 2"
    using n0 unfolding new_pixel_eq[OF re r0] Let_def q0
    by (simp add: gate_grid_def at_px_def)
  have n2: "new_pixel 0 2 7 gate_grid gray False = Inr (at_px pm1 0 2)"
    using it re r2 by (rule iterate_cells(2))
  have q2: "qualified_neighbors 0 2 7 gate_grid gate_grid False
      = [px 0 0 0 0 2, px 0 2 0 0 1, px 0 4 0 0 100]"
    by (simp add: gate_grid_def grid_eval)
  define a where "a = gaussian spatialFilter 2 * gaussian colorFilter 0"
  define b where "b = gaussian spatialFilter 0 * gaussian colorFilter 0"
  have cpos: "0 < gaussian colorFilter 0" by (rule gaussian_pos) (simp add: colorFilter_def)
  have apos: "0 < a" unfolding a_def using spatial_weight_two(2) cpos by simp
  have bpos: "0 < b" unfolding b_def using cpos gaussian_pos[of spatialFilter 0]
    by (simp add: spatialFilter_def)
  have ba: "b \<le> 2 * a"
    unfolding a_def b_def using spatial_weight_two(1) cpos
    by (simp add: mult_right_mono mult.assoc[symmetric])
  have W: "bilateral_filter (0, 2) [px 0 0 0 0 2, px 0 2 0 0 1, px 0 4 0 0 100] gray
      = [(px 0 0 0 0 2)\<lparr>weight := a\<rparr>, (px 0 2 0 0 1)\<lparr>weight := b\<rparr>,
         (px 0 4 0 0 100)\<lparr>weight := a\<rparr>]"
    by (simp add: bilateral_filter_def gate_weights a_def b_def)
  have S: "a + (b + a) \<noteq> 0" using apos bpos by simp
  have m: "interpolate_magnitude (bilateral_filter (0, 2)
        (qualified_neighbors 0 2 7 gate_grid gate_grid False) gray)
      = Inr ((a * 2 + (b * 1 + a * 100)) / (a + (b + a)))"
    unfolding q2 W using S by (simp add: interpolate_magnitude_eq px_def)
  from n2 re r2 show "2 < magnitude (at_px pm1 0 2)"
  proof (cases rule: new_pixel_cases)
    case single
    then show ?thesis by (simp add: q2)
  next
    case (many m' a')
    then have "m' = (a * 2 + (b * 1 + a * 100)) / (a + (b + a))" using m by simp
    then show ?thesis using gate_mean[OF apos ba bpos] many(4) by simp
  qed
qed

subsection \<open>The circular mean does not depend on the order of equal angles\<close>

text \<open>
  \<^verbatim>\<open>std::sort\<close> may leave pixels of equal angle in any order. The split index is 0 or
  lies right after a positive gap, so pixels of equal angle are shifted together or not at
  all, and the circular mean is the same for every order: it depends on the multiset of
  the neighbours only. Any sorted arrangement can stand for the result of \<^verbatim>\<open>std::sort\<close>.
\<close>

lemma sorted_sort_by_angle: "sorted (map angle (sort_by_angle ns))"
  by (simp add: sort_by_angle_def)

lemma mset_sort_by_angle: "mset (sort_by_angle ns) = mset ns"
  by (simp add: sort_by_angle_def)

lemma sum_list_mset_cong:
  assumes "mset xs = mset ys"
  shows "(\<Sum>x\<leftarrow>xs. (f x :: real)) = (\<Sum>x\<leftarrow>ys. f x)"
proof -
  have "mset (map f xs) = mset (map f ys)" using assms by simp
  then have "sum_mset (mset (map f xs)) = sum_mset (mset (map f ys))" by simp
  then show ?thesis by (simp only: sum_mset_sum_list)
qed

lemma sorted_angles_unique:
  assumes "mset s1 = mset s2" "sorted (map angle s1)" "sorted (map angle s2)"
  shows "map angle s1 = map angle s2"
proof -
  have m: "mset (map angle s2) = mset (map angle s1)" using assms(1) by simp
  have "sort (map angle s1) = map angle s2" using m assms(3) by (rule properties_for_sort)
  moreover have "sort (map angle s1) = map angle s1"
    using assms(2) by (intro properties_for_sort) simp_all
  ultimately show ?thesis by simp
qed

lemma split_gap_positive:
  assumes ne: "s \<noteq> []" and so: "sorted (map angle s)" and k: "0 < split_index s"
  shows "angle (s ! (split_index s - 1)) < angle (s ! split_index s)"
proof (rule ccontr)
  let ?k = "split_index s"
  let ?g = "circle_gap (map angle s)"
  note fs = find_split_largest_gap[OF ne, folded split_index_def]
  assume "\<not> angle (s ! (?k - 1)) < angle (s ! ?k)"
  then have le: "angle (s ! ?k) \<le> angle (s ! (?k - 1))" by simp
  have gk: "?g ?k = angle (s ! ?k) - angle (s ! (?k - 1))"
    using k fs(1) by (simp add: circle_gap_def)
  then have gk0: "?g ?k \<le> 0" using le by simp
  have mono: "angle (s ! i) \<le> angle (s ! j)" if "i \<le> j" "j < length s" for i j
    using sorted_nth_mono[OF so, of i j] that by simp
  have eq: "angle (s ! j) = angle (s ! 0)" if "j < length s" for j
    using that
  proof (induction j)
    case 0
    then show ?case by simp
  next
    case (Suc j)
    have "?g (Suc j) \<le> ?g ?k" using fs(2) Suc.prems by simp
    then have "angle (s ! Suc j) - angle (s ! j) \<le> 0"
      using gk0 Suc.prems by (simp add: circle_gap_def)
    moreover have "angle (s ! j) \<le> angle (s ! Suc j)" using mono[of j "Suc j"] Suc.prems by simp
    ultimately show ?case using Suc by simp
  qed
  have "last s = s ! (length s - 1)" using ne by (rule last_conv_nth)
  then have "angle (last s) = angle (s ! 0)" using eq[of "length s - 1"] ne by simp
  then have "?g 0 = PI" using ne by (simp add: circle_gap_def last_map)
  moreover have "?g 0 < ?g ?k" using fs(3) k by simp
  ultimately show False using gk0 PI_pos by simp
qed

lemma shifted_sum_by_angle:
  assumes ne: "s \<noteq> []" and so: "sorted (map angle s)"
  shows "shifted_sum s (split_index s)
     = (\<Sum>p\<leftarrow>s. unwrap_below (0 < split_index s) (angle (s ! split_index s)) p)"
proof -
  let ?k = "split_index s"
  note fs = find_split_largest_gap[OF ne, folded split_index_def]
  have mono: "angle (s ! i) \<le> angle (s ! j)" if "i \<le> j" "j < length s" for i j
    using sorted_nth_mono[OF so, of i j] that by simp
  have iff: "j < ?k \<longleftrightarrow> (0 < ?k \<and> angle (s ! j) < angle (s ! ?k))" if j: "j < length s" for j
  proof (cases "0 < ?k")
    case False
    then show ?thesis by simp
  next
    case True
    note gp = split_gap_positive[OF ne so True]
    show ?thesis
    proof (cases "j < ?k")
      case jk: True
      then have "angle (s ! j) \<le> angle (s ! (?k - 1))" using mono[of j "?k - 1"] fs(1) by simp
      then show ?thesis using gp jk True by simp
    next
      case jk: False
      then have "angle (s ! ?k) \<le> angle (s ! j)" using mono[of ?k j] j by simp
      then show ?thesis using jk by simp
    qed
  qed
  have "shifted_sum s ?k
      = (\<Sum>j = 0..<length s. unwrap_below (0 < ?k) (angle (s ! ?k)) (s ! j))"
    unfolding shifted_sum_def
    by (rule sum.cong[OF refl]) (simp add: shifted_angle_def unwrap_below_def iff)
  then show ?thesis by (simp only: sum_nth_eq_sum_list)
qed

lemma interpolate_angle_mset:
  assumes "mset ns = mset ns'"
  shows "interpolate_angle ns = interpolate_angle ns'"
proof (cases "ns = []")
  case True
  then have "ns' = []" using assms by simp
  then show ?thesis using True by simp
next
  case ne: False
  then have ne': "ns' \<noteq> []" using assms by auto
  define s where "s = sort_by_angle ns"
  define s' where "s' = sort_by_angle ns'"
  have sne: "s \<noteq> []" "s' \<noteq> []" using ne ne' by (simp_all add: s_def s'_def sort_by_angle_Nil_iff)
  have so: "sorted (map angle s)" "sorted (map angle s')"
    by (simp_all add: s_def s'_def sorted_sort_by_angle)
  have ms: "mset s = mset s'" using assms by (simp add: s_def s'_def mset_sort_by_angle)
  have an: "map angle s = map angle s'" using ms so by (rule sorted_angles_unique)
  have k: "split_index s = split_index s'"
    unfolding split_index_def
    using find_split_eq_largest_gap_split[OF sne(1)] find_split_eq_largest_gap_split[OF sne(2)] an
    by simp
  have kl: "split_index s' < length s'"
    using find_split_largest_gap(1)[OF sne(2), folded split_index_def] .
  have "length (map angle s) = length (map angle s')" using an by simp
  then have len: "length s = length s'" by simp
  have T: "angle (s ! split_index s') = angle (s' ! split_index s')"
  proof -
    have "map angle s ! split_index s' = map angle s' ! split_index s'" using an by simp
    then show ?thesis using kl len by simp
  qed
  have "shifted_sum s (split_index s)
      = (\<Sum>p\<leftarrow>s. unwrap_below (0 < split_index s) (angle (s ! split_index s)) p)"
    using sne(1) so(1) by (rule shifted_sum_by_angle)
  also have "\<dots> = (\<Sum>p\<leftarrow>s'. unwrap_below (0 < split_index s) (angle (s ! split_index s)) p)"
    using ms by (rule sum_list_mset_cong)
  also have "\<dots> = (\<Sum>p\<leftarrow>s'. unwrap_below (0 < split_index s') (angle (s' ! split_index s')) p)"
    by (simp only: k T)
  also have "\<dots> = shifted_sum s' (split_index s')"
    using sne(2) so(2) by (rule shifted_sum_by_angle[symmetric])
  finally have A: "shifted_sum s (split_index s) = shifted_sum s' (split_index s')" .
  have S: "(\<Sum>n\<leftarrow>ns. magWeight n) = (\<Sum>n\<leftarrow>ns'. magWeight n)"
    using assms by (rule sum_list_mset_cong)
  have "interpolate_angle ns =
     (if (\<Sum>n\<leftarrow>ns. magWeight n) = 0 then Inl NonFinite
      else if shifted_sum s (split_index s) / (\<Sum>n\<leftarrow>ns. magWeight n) \<ge> PI / 2
           then Inr (shifted_sum s (split_index s) / (\<Sum>n\<leftarrow>ns. magWeight n) - PI)
           else Inr (shifted_sum s (split_index s) / (\<Sum>n\<leftarrow>ns. magWeight n)))"
    unfolding s_def by (rule interpolate_angle_eq[OF ne])
  moreover have "interpolate_angle ns' =
     (if (\<Sum>n\<leftarrow>ns'. magWeight n) = 0 then Inl NonFinite
      else if shifted_sum s' (split_index s') / (\<Sum>n\<leftarrow>ns'. magWeight n) \<ge> PI / 2
           then Inr (shifted_sum s' (split_index s') / (\<Sum>n\<leftarrow>ns'. magWeight n) - PI)
           else Inr (shifted_sum s' (split_index s') / (\<Sum>n\<leftarrow>ns'. magWeight n)))"
    unfolding s'_def by (rule interpolate_angle_eq[OF ne'])
  ultimately show ?thesis by (simp only: A S)
qed

lemma interpolate_angle_any_sort:
  assumes "mset s = mset ns" "sorted (map angle s)"
  shows "sort_by_angle s = s" and "interpolate_angle s = interpolate_angle ns"
proof -
  show "sort_by_angle s = s" using assms(2) by (simp add: sort_by_angle_def sort_key_id_if_sorted)
  show "interpolate_angle s = interpolate_angle ns" using assms(1) by (rule interpolate_angle_mset)
qed

subsection \<open>Magnitudes in the gated phase\<close>

lemma gated_run_magnitude_monotone:
  assumes "run_sweeps k flags pm img = Inr pm'" "\<forall>f\<in>set flags. \<not> f" "rect pm" "in_range pm r c"
  shows "magnitude (at_px pm r c) \<le> magnitude (at_px pm' r c)"
  using assms
proof (induction flags arbitrary: pm)
  case Nil
  then show ?case by simp
next
  case (Cons ig flags)
  have ig: "ig = False" using Cons.prems(2) by simp
  from Cons.prems(1) obtain q where q: "iterate k pm img False = Inr q"
    "run_sweeps k flags q img = Inr pm'" by (auto simp: ig split: sum.splits)
  have sh: "same_shape q pm" using q(1) Cons.prems(3) by (rule iterate_cells(1))
  have rq: "rect q" using sh Cons.prems(3) by (rule same_shape_rect)
  have iq: "in_range q r c" using same_shape_in_range[OF sh Cons.prems(3)] Cons.prems(4) by simp
  have "new_pixel r c k pm img False = Inr (at_px q r c)"
    using q(1) Cons.prems(3,4) by (rule iterate_cells(2))
  then have "magnitude (at_px pm r c) \<le> magnitude (at_px q r c)"
    using Cons.prems(3,4) by (rule new_pixel_magnitude_mono)
  moreover have "magnitude (at_px q r c) \<le> magnitude (at_px pm' r c)"
  proof (rule Cons.IH[OF q(2) _ rq iq])
    show "\<forall>f\<in>set flags. \<not> f" using Cons.prems(2) by auto
  qed
  ultimately show ?case by simp
qed

lemma phase1_magnitude_monotone:
  assumes "main_loop 0 n s pm img = Inr pm'" "n \<le> 20" "rect pm" "in_range pm r c"
  shows "magnitude (at_px pm r c) \<le> magnitude (at_px pm' r c)"
proof (cases "s = 0")
  case True
  have "pm' = pm"
    using assms(1) True by (subst (asm) main_loop.simps) (auto split: if_splits sum.splits)
  then show ?thesis by simp
next
  case False
  have run: "run_sweeps 7 (phase_flags 0 n) pm img = Inr pm'"
    using assms(1) main_loop_run_sweeps[OF False] by simp
  have "\<forall>f\<in>set (phase_flags 0 n). \<not> f"
    using assms(2) by (auto simp: phase_flags_def)
  with run show ?thesis using assms(3,4) by (rule gated_run_magnitude_monotone)
qed

section \<open>Properties of the binary32 arithmetic\<close>

subsection \<open>Powers of two, exponents and rounding\<close>

lemma pow2_pos [simp]: "0 < pow2 k"
  by (simp add: pow2_def)

lemma pow2_powr: "pow2 k = 2 powr real_of_int k"
proof (cases "0 \<le> k")
  case True
  then have "2 powr real_of_int k = 2 powr real (nat k)" by simp
  also have "\<dots> = 2 ^ nat k" by (rule powr_realpow) simp
  finally show ?thesis using True by (simp add: pow2_def)
next
  case False
  then have "2 powr real_of_int k = 2 powr (- real (nat (- k)))" by simp
  also have "\<dots> = 1 / 2 powr real (nat (- k))" by (simp add: powr_minus divide_inverse)
  also have "2 powr real (nat (- k)) = (2::real) ^ nat (- k)" by (rule powr_realpow) simp
  finally show ?thesis using False by (simp add: pow2_def)
qed

lemma pow2_add: "pow2 (a + b) = pow2 a * pow2 b"
  by (simp add: pow2_powr powr_add)

lemma pow2_diff: "pow2 (a - b) = pow2 a / pow2 b"
  by (simp add: pow2_powr powr_diff)

lemma pow2_le_iff [simp]: "pow2 a \<le> pow2 b \<longleftrightarrow> a \<le> b"
  by (simp add: pow2_powr)

lemma pow2_less_iff [simp]: "pow2 a < pow2 b \<longleftrightarrow> a < b"
  by (simp add: pow2_powr)

lemma pow2_nat: "pow2 (int n) = 2 ^ n"
  by (simp add: pow2_def)

lemma pow2_zero [simp]: "pow2 0 = 1"
  by (simp add: pow2_def)

lemma pow2_neg_nat: "pow2 (- int n) = 1 / 2 ^ n"
  by (cases "n = 0") (simp_all add: pow2_def)

lemma ilog2_bounds:
  assumes "x \<noteq> 0"
  shows "pow2 (ilog2 x) \<le> \<bar>x\<bar>" and "\<bar>x\<bar> < pow2 (ilog2 x + 1)"
proof -
  have "pow2 (ilog2 x) \<le> \<bar>x\<bar> \<and> \<bar>x\<bar> < pow2 (ilog2 x + 1)"
  proof (cases "1 \<le> \<bar>x\<bar>")
    case True
    define n where "n = nat \<lfloor>\<bar>x\<bar>\<rfloor>"
    define L where "L = floorlog 2 n"
    have n1: "1 \<le> \<lfloor>\<bar>x\<bar>\<rfloor>" using True by linarith
    then have npos: "0 < n" by (simp add: n_def)
    have nle: "real n \<le> \<bar>x\<bar>" and nlt: "\<bar>x\<bar> < real n + 1"
      using n1 by (simp_all add: n_def)
    from floorlog_bounds[OF npos, of 2]
    have b1: "2 ^ (L - 1) \<le> n" and b2: "n < 2 ^ L" by (simp_all add: L_def)
    have Lpos: "0 < L" using b2 npos by (cases L) simp_all
    have e: "ilog2 x = int L - 1" using True by (simp add: ilog2_def n_def L_def)
    have e': "ilog2 x = int (L - 1)" using e Lpos by simp
    have "pow2 (ilog2 x) = 2 ^ (L - 1)" unfolding e' by (rule pow2_nat)
    also have "\<dots> \<le> real n" using b1 by (metis of_nat_le_iff of_nat_numeral of_nat_power)
    finally have l: "pow2 (ilog2 x) \<le> \<bar>x\<bar>" using nle by linarith
    have "n + 1 \<le> 2 ^ L" using b2 by simp
    then have "real (n + 1) \<le> 2 ^ L" by (metis of_nat_le_iff of_nat_numeral of_nat_power)
    moreover have "pow2 (ilog2 x + 1) = 2 ^ L" using e pow2_nat[of L] by simp
    ultimately have "\<bar>x\<bar> < pow2 (ilog2 x + 1)" using nlt by simp
    with l show ?thesis by simp
  next
    case False
    define y where "y = 1 / \<bar>x\<bar>"
    define n where "n = nat (\<lceil>y\<rceil> - 1)"
    define L where "L = floorlog 2 n"
    have xpos: "0 < \<bar>x\<bar>" using assms by simp
    have y1: "1 < y" using False xpos by (simp add: y_def)
    then have c2: "2 \<le> \<lceil>y\<rceil>" by linarith
    then have npos: "0 < n" by (simp add: n_def)
    have nlt: "real n < y" and nle: "y \<le> real n + 1"
      using c2 by (simp_all add: n_def) linarith+
    from floorlog_bounds[OF npos, of 2]
    have b1: "2 ^ (L - 1) \<le> n" and b2: "n < 2 ^ L" by (simp_all add: L_def)
    have Lpos: "0 < L" using b2 npos by (cases L) simp_all
    have e: "ilog2 x = - int L" using False by (simp add: ilog2_def n_def L_def y_def)
    have "n + 1 \<le> 2 ^ L" using b2 by simp
    then have "real (n + 1) \<le> 2 ^ L" by (metis of_nat_le_iff of_nat_numeral of_nat_power)
    then have yle: "y \<le> 2 ^ L" using nle by simp
    have "(2::real) ^ (L - 1) \<le> real n" using b1 by (metis of_nat_le_iff of_nat_numeral of_nat_power)
    then have ygt: "2 ^ (L - 1) < y" using nlt by linarith
    have x_eq: "\<bar>x\<bar> = 1 / y" using xpos by (simp add: y_def)
    have "pow2 (ilog2 x) = 1 / 2 ^ L" unfolding e by (rule pow2_neg_nat)
    also have "\<dots> \<le> 1 / y" using yle y1 by (simp add: frac_le)
    finally have l: "pow2 (ilog2 x) \<le> \<bar>x\<bar>" using x_eq by simp
    have "ilog2 x + 1 = - int (L - 1)" using e Lpos by simp
    then have "pow2 (ilog2 x + 1) = 1 / 2 ^ (L - 1)" by (simp only: pow2_neg_nat)
    moreover have "1 / y < 1 / 2 ^ (L - 1)" using ygt by (simp add: frac_less2)
    ultimately have "\<bar>x\<bar> < pow2 (ilog2 x + 1)" using x_eq by simp
    with l show ?thesis by simp
  qed
  then show "pow2 (ilog2 x) \<le> \<bar>x\<bar>" and "\<bar>x\<bar> < pow2 (ilog2 x + 1)" by simp_all
qed

lemma ilog2_unique:
  assumes "pow2 e \<le> \<bar>x\<bar>" and "\<bar>x\<bar> < pow2 (e + 1)"
  shows "ilog2 x = e"
proof -
  have "0 < \<bar>x\<bar>" using pow2_pos[of e] assms(1) by linarith
  then have x: "x \<noteq> 0" by simp
  have "pow2 (ilog2 x) < pow2 (e + 1)" using ilog2_bounds(1)[OF x] assms(2) by linarith
  moreover have "pow2 e < pow2 (ilog2 x + 1)" using ilog2_bounds(2)[OF x] assms(1) by linarith
  ultimately show ?thesis by simp
qed

lemma rne_error: "\<bar>real_of_int (rne y) - y\<bar> \<le> 1 / 2"
  unfolding rne_def Let_def by (simp; linarith)

lemma rne_eqI:
  assumes "\<bar>y - real_of_int n\<bar> < 1 / 2 \<or> (\<bar>y - real_of_int n\<bar> = 1 / 2 \<and> even n)"
  shows "rne y = n"
proof -
  define m where "m = \<lfloor>y\<rfloor>"
  have m: "real_of_int m \<le> y" "y < real_of_int m + 1" by (simp_all add: m_def)
  from assms show ?thesis
  proof
    assume a: "\<bar>y - real_of_int n\<bar> < 1 / 2"
    show ?thesis
    proof (cases "y - real_of_int m < 1 / 2")
      case True
      have "real_of_int m - real_of_int n < 1" "real_of_int n - real_of_int m < 1" using a m True by linarith+
      then have "m = n" by linarith
      then show ?thesis using True by (simp add: rne_def m_def)
    next
      case False
      have "real_of_int n - real_of_int m > 0" "real_of_int n - real_of_int m < 2" using a m False by linarith+
      then have n: "n = m + 1" by linarith
      have "real_of_int n = real_of_int m + 1" using n by simp
      then have "1 / 2 < y - real_of_int m" using a by linarith
      then show ?thesis using n by (simp add: rne_def m_def)
    qed
  next
    assume a: "\<bar>y - real_of_int n\<bar> = 1 / 2 \<and> even n"
    then consider "y = real_of_int n + 1 / 2" | "y = real_of_int n - 1 / 2" by linarith
    then show ?thesis
    proof cases
      case 1
      then have "\<lfloor>y\<rfloor> = n" by linarith
      then show ?thesis using 1 a by (simp add: rne_def)
    next
      case 2
      then have f: "\<lfloor>y\<rfloor> = n - 1" by linarith
      then show ?thesis using 2 a by (simp add: rne_def)
    qed
  qed
qed

lemma round_fp_eqI:
  assumes e: "pow2 e \<le> \<bar>x\<bar>" "\<bar>x\<bar> < pow2 (e + 1)"
    and q: "q = max e (1 - emax) - int p + 1"
    and n: "\<bar>x / pow2 q - real_of_int n\<bar> < 1 / 2 \<or> (\<bar>x / pow2 q - real_of_int n\<bar> = 1 / 2 \<and> even n)"
    and y: "y = real_of_int n * pow2 q"
    and fin: "\<bar>y\<bar> < pow2 (emax + 1)"
  shows "round_fp p emax x = Fin y"
proof -
  have "0 < \<bar>x\<bar>" using pow2_pos[of e] e(1) by linarith
  then have x: "x \<noteq> 0" by simp
  have "ilog2 x = e" using e by (rule ilog2_unique)
  moreover have "rne (x / pow2 q) = n" using n by (rule rne_eqI)
  ultimately show ?thesis using x q y fin by (simp add: round_fp_def Let_def)
qed



lemma pow2_nonneg [simp]: "0 \<le> pow2 k"
  using pow2_pos[of k] by linarith

lemma pow2_neq_zero [simp]: "pow2 k \<noteq> 0"
  using pow2_pos[of k] by linarith

lemma round_fp_zero [simp]: "round_fp p emax 0 = Fin 0"
  by (simp add: round_fp_def)

lemma round_fp_not_NaN [simp]: "round_fp p emax x \<noteq> NaN"
  by (simp add: round_fp_def Let_def)

lemma pow2_half: "pow2 (q - 1) = pow2 q / 2"
  using pow2_diff[of q 1] by (simp add: pow2_def)

lemma pow2_double: "pow2 (q + 1) = 2 * pow2 q"
  using pow2_add[of q 1] by (simp add: pow2_def)

lemma pow2_int_nat: "pow2 (a - int p) = pow2 a / 2 ^ p"
  using pow2_diff[of a "int p"] by (simp add: pow2_nat)

text \<open>The rounded value before the test for overflow, and its distance from the number.\<close>

lemma rounded_value_error:
  "\<bar>real_of_int (rne (x / pow2 q)) * pow2 q - x\<bar> \<le> pow2 q / 2"
proof -
  have "real_of_int (rne (x / pow2 q)) * pow2 q - x
      = (real_of_int (rne (x / pow2 q)) - x / pow2 q) * pow2 q"
    by (simp add: left_diff_distrib)
  then have "\<bar>real_of_int (rne (x / pow2 q)) * pow2 q - x\<bar>
      = \<bar>real_of_int (rne (x / pow2 q)) - x / pow2 q\<bar> * pow2 q"
    by (simp add: abs_mult)
  also have "\<dots> \<le> (1 / 2) * pow2 q"
    by (rule mult_right_mono[OF rne_error]) simp
  finally show ?thesis by simp
qed

lemma round_fp_abs_error:
  assumes x: "\<bar>x\<bar> \<le> pow2 E" and E: "1 - emax \<le> E" "E \<le> emax" and p: "0 < p"
  shows "\<exists>y. round_fp p emax x = Fin y \<and> \<bar>y - x\<bar> \<le> pow2 (E - int p)"
proof (cases "x = 0")
  case True
  then show ?thesis by simp
next
  case False
  define q where "q = max (ilog2 x) (1 - emax) - int p + 1"
  define y where "y = real_of_int (rne (x / pow2 q)) * pow2 q"
  have "pow2 (ilog2 x) \<le> pow2 E" using ilog2_bounds(1)[OF False] x by linarith
  then have "ilog2 x \<le> E" by simp
  then have q: "q \<le> E - int p + 1" using E by (simp add: q_def)
  have "\<bar>y - x\<bar> \<le> pow2 q / 2" unfolding y_def by (rule rounded_value_error)
  also have "\<dots> = pow2 (q - 1)" by (simp add: pow2_half)
  also have "\<dots> \<le> pow2 (E - int p)" using q by simp
  finally have err: "\<bar>y - x\<bar> \<le> pow2 (E - int p)" .
  have "pow2 (E - int p) \<le> pow2 (E - 1)" using p by simp
  also have "\<dots> = pow2 E / 2" by (rule pow2_half)
  finally have "\<bar>y\<bar> \<le> pow2 E + pow2 E / 2" using err x by linarith
  also have "\<dots> < 2 * pow2 E" using pow2_pos[of E] by linarith
  also have "\<dots> = pow2 (E + 1)" by (simp add: pow2_double)
  also have "\<dots> \<le> pow2 (emax + 1)" using E by simp
  finally have "\<not> pow2 (emax + 1) \<le> \<bar>y\<bar>" by simp
  then have "round_fp p emax x = Fin y"
    using False by (simp add: round_fp_def Let_def q_def[symmetric] y_def[symmetric])
  with err show ?thesis by blast
qed

lemma round_fp_rel_error:
  assumes lo: "pow2 (1 - emax) \<le> \<bar>x\<bar>" and hi: "\<bar>x\<bar> \<le> pow2 emax" and p: "0 < p"
  shows "\<exists>y. round_fp p emax x = Fin y \<and> \<bar>y - x\<bar> \<le> \<bar>x\<bar> / 2 ^ p"
proof -
  have xpos: "0 < \<bar>x\<bar>" using pow2_pos[of "1 - emax"] lo by linarith
  then have x: "x \<noteq> 0" by simp
  define q where "q = max (ilog2 x) (1 - emax) - int p + 1"
  define y where "y = real_of_int (rne (x / pow2 q)) * pow2 q"
  have "pow2 (1 - emax) < pow2 (ilog2 x + 1)" using ilog2_bounds(2)[OF x] lo by linarith
  then have "1 - emax \<le> ilog2 x" by simp
  then have q: "q = ilog2 x - int p + 1" by (simp add: q_def)
  have "\<bar>y - x\<bar> \<le> pow2 q / 2" unfolding y_def by (rule rounded_value_error)
  also have "\<dots> = pow2 (q - 1)" by (simp add: pow2_half)
  also have "\<dots> = pow2 (ilog2 x) / 2 ^ p" using q pow2_int_nat[of "ilog2 x" p] by simp
  also have "\<dots> \<le> \<bar>x\<bar> / 2 ^ p" using ilog2_bounds(1)[OF x] by (simp add: divide_right_mono)
  finally have err: "\<bar>y - x\<bar> \<le> \<bar>x\<bar> / 2 ^ p" .
  have "(2::real) ^ p \<ge> 2" using p by (cases p) (simp_all add: self_le_power)
  then have "\<bar>x\<bar> / 2 ^ p \<le> \<bar>x\<bar> / 2" using frac_le[of "\<bar>x\<bar>" "\<bar>x\<bar>" 2 "2 ^ p"] by simp
  then have "\<bar>y\<bar> \<le> \<bar>x\<bar> + \<bar>x\<bar> / 2" using err by linarith
  also have "\<dots> < 2 * pow2 emax" using hi xpos by linarith
  also have "\<dots> = pow2 (emax + 1)" by (simp add: pow2_double)
  finally have "\<not> pow2 (emax + 1) \<le> \<bar>y\<bar>" by simp
  then have "round_fp p emax x = Fin y"
    using x by (simp add: round_fp_def Let_def q_def[symmetric] y_def[symmetric])
  with err show ?thesis by blast
qed

lemma rnd32_abs_error:
  assumes "\<bar>x\<bar> \<le> pow2 E" "- 126 \<le> E" "E \<le> 127"
  shows "\<exists>y. rnd32 x = Fin y \<and> \<bar>y - x\<bar> \<le> pow2 (E - 24)"
  using round_fp_abs_error[of x E 127 24] assms by (simp add: rnd32_def)

lemma rnd64_abs_error:
  assumes "\<bar>x\<bar> \<le> pow2 E" "- 1022 \<le> E" "E \<le> 1023"
  shows "\<exists>y. rnd64 x = Fin y \<and> \<bar>y - x\<bar> \<le> pow2 (E - 53)"
  using round_fp_abs_error[of x E 1023 53] assms by (simp add: rnd64_def)

lemma rnd32_rel_error:
  assumes "pow2 (- 126) \<le> \<bar>x\<bar>" "\<bar>x\<bar> \<le> pow2 127"
  shows "\<exists>y. rnd32 x = Fin y \<and> \<bar>y - x\<bar> \<le> \<bar>x\<bar> / 2 ^ 24"
  using round_fp_rel_error[of 127 x 24] assms by (simp add: rnd32_def)


subsection \<open>Comparisons\<close>

lemma fless_irrefl [simp]: "\<not> fless a a"
  by (cases a) simp_all

lemma fless_trans: "fless a b \<Longrightarrow> fless b c \<Longrightarrow> fless a c"
  by (cases a; cases b; cases c) simp_all

lemma fless_total: "fless c b \<Longrightarrow> \<not> fless a b \<Longrightarrow> a \<noteq> NaN \<Longrightarrow> fless c a"
  by (cases a; cases b; cases c) simp_all

lemma fadd_not_NaN: "a \<noteq> NaN \<Longrightarrow> fadd (round_fp p emax) a (Fin y) \<noteq> NaN"
  by (cases a) (simp_all add: fadd.simps)

lemma to_float_not_NaN: "a \<noteq> NaN \<Longrightarrow> to_float a \<noteq> NaN"
  by (cases a) (simp_all add: to_float.simps rnd32_def)

subsection \<open>The first loop returns the first index of a least span\<close>

lemma length_spans32: "s \<noteq> [] \<Longrightarrow> length (spans32 s) = length s"
proof -
  assume "s \<noteq> []"
  then have "0 < length s" by simp
  then show ?thesis by (simp add: spans32_def)
qed

lemma spans32_nth_0:
  "spans32 s ! 0 = fsub rnd32 (Fin (angle (last s))) (Fin (angle (s ! 0)))"
  by (simp add: spans32_def)

lemma spans32_nth_pos: "0 < j \<Longrightarrow> j < length s \<Longrightarrow> spans32 s ! j = span_diff32 s j"
  by (cases j) (simp_all add: spans32_def)

lemma spans32_not_NaN:
  assumes "j < length s"
  shows "spans32 s ! j \<noteq> NaN"
proof (cases "j = 0")
  case True
  then show ?thesis
    by (simp add: spans32_nth_0 fsub_def fneg.simps fadd.simps rnd32_def)
next
  case False
  have "fadd rnd64 (Fin (angle (s ! (j - 1)))) (Fin PI_double) \<noteq> NaN"
    by (simp add: fadd.simps rnd64_def)
  then have "fsub rnd64 (fadd rnd64 (Fin (angle (s ! (j - 1)))) (Fin PI_double)) (Fin (angle (s ! j))) \<noteq> NaN"
    unfolding fsub_def fneg.simps rnd64_def by (rule fadd_not_NaN)
  then have "span_diff32 s j \<noteq> NaN"
    unfolding span_diff32_def by (rule to_float_not_NaN)
  then show ?thesis using False assms by (simp add: spans32_nth_pos)
qed

lemma find_split32_inv:
  assumes "0 < i" "i \<le> length s" "mi < i"
    and "md = spans32 s ! mi"
    and "\<forall>j<i. \<not> fless (spans32 s ! j) (spans32 s ! mi)"
    and "\<forall>j<mi. fless (spans32 s ! mi) (spans32 s ! j)"
  shows "find_split32 s i md mi < length s \<and>
     (\<forall>j<length s. \<not> fless (spans32 s ! j) (spans32 s ! find_split32 s i md mi)) \<and>
     (\<forall>j<find_split32 s i md mi. fless (spans32 s ! find_split32 s i md mi) (spans32 s ! j))"
  using assms
proof (induction s i md mi rule: find_split32.induct)
  case (1 s i md mi)
  let ?g = "\<lambda>j. spans32 s ! j"
  show ?case
  proof (cases "i < length s")
    case False
    with "1.prems" have "i = length s" by simp
    moreover have "find_split32 s i md mi = mi"
      using False by (subst find_split32.simps) simp
    ultimately show ?thesis using "1.prems" by simp
  next
    case True
    define diff where "diff = span_diff32 s i"
    have gi: "?g i = diff"
      using True "1.prems"(1) by (simp add: spans32_nth_pos diff_def)
    show ?thesis
    proof (cases "fless diff md")
      case lt: True
      have eq: "find_split32 s i md mi = find_split32 s (i + 1) diff i"
        using True lt by (subst find_split32.simps) (simp add: diff_def Let_def)
      have less: "fless (?g i) (?g mi)" using lt gi "1.prems"(4) by simp
      have "find_split32 s (i + 1) diff i < length s \<and>
          (\<forall>j<length s. \<not> fless (?g j) (?g (find_split32 s (i + 1) diff i))) \<and>
          (\<forall>j<find_split32 s (i + 1) diff i. fless (?g (find_split32 s (i + 1) diff i)) (?g j))"
      proof (rule "1.IH"(1)[OF True diff_def lt])
        show "0 < i + 1" by simp
        show "i + 1 \<le> length s" using True by simp
        show "i < i + 1" by simp
        show "diff = ?g i" using gi by simp
        show "\<forall>j<i + 1. \<not> fless (?g j) (?g i)"
        proof (intro allI impI)
          fix j assume "j < i + 1"
          then consider "j < i" | "j = i" by linarith
          then show "\<not> fless (?g j) (?g i)"
          proof cases
            case 1
            then have "\<not> fless (?g j) (?g mi)" using "1.prems"(5) by simp
            show ?thesis
            proof
              assume "fless (?g j) (?g i)"
              then have "fless (?g j) (?g mi)" using less by (rule fless_trans)
              with \<open>\<not> fless (?g j) (?g mi)\<close> show False by simp
            qed
          next
            case 2
            then show ?thesis by simp
          qed
        qed
        show "\<forall>j<i. fless (?g i) (?g j)"
        proof (intro allI impI)
          fix j assume j: "j < i"
          then have "\<not> fless (?g j) (?g mi)" using "1.prems"(5) by simp
          moreover have "?g j \<noteq> NaN" using j True by (intro spans32_not_NaN) simp
          ultimately show "fless (?g i) (?g j)" by (rule fless_total[OF less])
        qed
      qed
      then show ?thesis unfolding eq .
    next
      case ge: False
      have eq: "find_split32 s i md mi = find_split32 s (i + 1) md mi"
        using True ge by (subst find_split32.simps) (simp add: diff_def Let_def)
      have notless: "\<not> fless (?g i) (?g mi)" using ge gi "1.prems"(4) by simp
      have "find_split32 s (i + 1) md mi < length s \<and>
          (\<forall>j<length s. \<not> fless (?g j) (?g (find_split32 s (i + 1) md mi))) \<and>
          (\<forall>j<find_split32 s (i + 1) md mi. fless (?g (find_split32 s (i + 1) md mi)) (?g j))"
      proof (rule "1.IH"(2)[OF True diff_def ge])
        show "0 < i + 1" by simp
        show "i + 1 \<le> length s" using True by simp
        show "mi < i + 1" using "1.prems"(3) by simp
        show "md = ?g mi" by (rule "1.prems"(4))
        show "\<forall>j<i + 1. \<not> fless (?g j) (?g mi)"
        proof (intro allI impI)
          fix j assume "j < i + 1"
          then consider "j < i" | "j = i" by linarith
          then show "\<not> fless (?g j) (?g mi)"
            using "1.prems"(5) notless by cases auto
        qed
        show "\<forall>j<mi. fless (?g mi) (?g j)" by (rule "1.prems"(6))
      qed
      then show ?thesis unfolding eq .
    qed
  qed
qed

lemma first_leastI:
  assumes r: "r < length xs"
    and least: "\<forall>j<length xs. \<not> fless (xs ! j) (xs ! r)"
    and first: "\<forall>j<r. fless (xs ! r) (xs ! j)"
  shows "first_least xs = r"
proof -
  let ?P = "\<lambda>x. \<exists>y\<in>set xs. fless y x"
  have "takeWhile ?P xs = take r xs"
  proof (rule takeWhile_eq_take_P_nth)
    fix i assume "i < r" "i < length xs"
    then have "fless (xs ! r) (xs ! i)" using first by simp
    moreover have "xs ! r \<in> set xs" using r by simp
    ultimately show "?P (xs ! i)" by blast
  next
    show "\<not> ?P (xs ! r)"
    proof
      assume "?P (xs ! r)"
      then obtain y where "y \<in> set xs" "fless y (xs ! r)" by blast
      then obtain j where "j < length xs" "fless (xs ! j) (xs ! r)"
        by (metis in_set_conv_nth)
      then show False using least by simp
    qed
  qed
  then show ?thesis using r by (simp add: first_least_def)
qed

lemma find_split32_first_least:
  assumes "s \<noteq> []"
  shows "find_split32 s 1 (fsub rnd32 (Fin (angle (last s))) (Fin (angle (s ! 0)))) 0
       = first_least (spans32 s)"
proof -
  let ?md = "fsub rnd32 (Fin (angle (last s))) (Fin (angle (s ! 0)))"
  let ?r = "find_split32 s 1 ?md 0"
  have inv: "?r < length s \<and>
     (\<forall>j<length s. \<not> fless (spans32 s ! j) (spans32 s ! ?r)) \<and>
     (\<forall>j<?r. fless (spans32 s ! ?r) (spans32 s ! j))"
  proof (rule find_split32_inv)
    show "(0::nat) < 1" by simp
    show "1 \<le> length s" using assms by (cases s) auto
    show "(0::nat) < 1" by simp
    show "?md = spans32 s ! 0" by (simp add: spans32_nth_0)
    show "\<forall>j<1. \<not> fless (spans32 s ! j) (spans32 s ! 0)" by simp
    show "\<forall>j<0. fless (spans32 s ! 0) (spans32 s ! j)" by simp
  qed
  have "first_least (spans32 s) = ?r"
  proof (rule first_leastI)
    show "?r < length (spans32 s)" using inv assms by (simp add: length_spans32)
    show "\<forall>j<length (spans32 s). \<not> fless (spans32 s ! j) (spans32 s ! ?r)"
      using inv assms by (simp add: length_spans32)
    show "\<forall>j<?r. fless (spans32 s ! ?r) (spans32 s ! j)" using inv by blast
  qed
  then show ?thesis by simp
qed


subsection \<open>The second loop as one pass\<close>

lemma angle_sums32_foldl:
  "i \<le> length s \<Longrightarrow>
   angle_sums32 s k i acc = foldl (mean_step32 k) acc (enumerate i (drop i s))"
proof (induction s k i acc rule: angle_sums32.induct)
  case (1 s k i avgAngle sumMagWeights)
  show ?case
  proof (cases "i < length s")
    case False
    then show ?thesis using "1.prems" by (subst angle_sums32.simps) simp
  next
    case True
    define mw where "mw = fmul rnd32 (Fin (weight (s ! i))) (Fin (magnitude (s ! i)))"
    have d: "drop i s = s ! i # drop (i + 1) s"
      using True by (simp add: Cons_nth_drop_Suc)
    have "angle_sums32 s k i (avgAngle, sumMagWeights)
        = angle_sums32 s k (i + 1)
            (add_angle32 (i < k) avgAngle (angle (s ! i)) mw, fadd rnd32 sumMagWeights mw)"
      using True by (subst angle_sums32.simps) (simp add: mw_def Let_def)
    also have "\<dots> = foldl (mean_step32 k)
            (add_angle32 (i < k) avgAngle (angle (s ! i)) mw, fadd rnd32 sumMagWeights mw)
            (enumerate (i + 1) (drop (i + 1) s))"
      using True by (intro "1.IH"[OF True mw_def]) simp
    also have "\<dots> = foldl (mean_step32 k) (avgAngle, sumMagWeights) (enumerate i (drop i s))"
      unfolding d by (simp add: mean_step32_def mw_def Let_def)
    finally show ?thesis .
  qed
qed

lemma interpolate_angle_sorted32_eq:
  assumes "s \<noteq> []"
  shows "interpolate_angle_sorted32 s = Inr (circular_mean32 s (first_least (spans32 s)))"
proof -
  define k where "k = first_least (spans32 s)"
  obtain a w where aw: "foldl (mean_step32 k) (Fin 0, Fin 0) (enumerate 0 s) = (a, w)"
    by (cases "foldl (mean_step32 k) (Fin 0, Fin 0) (enumerate 0 s)")
  have "angle_sums32 s k 0 (Fin 0, Fin 0) = (a, w)"
    using angle_sums32_foldl[of 0 s k "(Fin 0, Fin 0)"] aw by simp
  moreover have "find_split32 s 1 (fsub rnd32 (Fin (angle (last s))) (Fin (angle (s ! 0)))) 0 = k"
    using find_split32_first_least[OF assms] by (simp add: k_def)
  ultimately have "interpolate_angle_sorted32 s = Inr (wrap_angle32 (fdiv rnd32 a w))"
    unfolding interpolate_angle_sorted32_def Let_def using assms by simp
  moreover have "circular_mean32 s k = wrap_angle32 (fdiv rnd32 a w)"
    by (simp add: circular_mean32_def aw)
  ultimately show ?thesis by (simp add: k_def)
qed


subsection \<open>The spans are the exact ones up to rounding\<close>

lemma PI_double_bounds: "3 < PI_double" "PI_double < 16 / 5"
  by (simp_all add: PI_double_def)

lemma span_zero_error:
  assumes "\<bar>a\<bar> \<le> 2" "\<bar>b\<bar> \<le> 2"
  shows "\<exists>v. fsub rnd32 (Fin b) (Fin a) = Fin v \<and> \<bar>v - (b - a)\<bar> < 1 / 2 ^ 20"
proof -
  have p2: "pow2 2 = 4" by (simp add: pow2_def)
  have "\<bar>b - a\<bar> \<le> 4" using assms by linarith
  then have "\<bar>b - a\<bar> \<le> pow2 2" by (simp only: p2)
  from rnd32_abs_error[OF this]
  obtain v where v: "rnd32 (b - a) = Fin v" "\<bar>v - (b - a)\<bar> \<le> pow2 (2 - 24)" by auto
  have "pow2 (2 - 24) < 1 / 2 ^ 20" by (simp add: pow2_def)
  then show ?thesis using v by (auto simp add: fsub_def fneg.simps fadd.simps)
qed

lemma span_diff_error:
  assumes "\<bar>a\<bar> \<le> 2" "\<bar>b\<bar> \<le> 2"
  shows "\<exists>v. to_float (fsub rnd64 (fadd rnd64 (Fin a) (Fin PI_double)) (Fin b)) = Fin v
           \<and> \<bar>v - (a + PI_double - b)\<bar> < 1 / 2 ^ 20"
proof -
  note PI_double_bounds
  have e50: "pow2 (3 - 53) = 1 / 2 ^ 50" and e21: "pow2 (3 - 24) = 1 / 2 ^ 21"
    by (simp_all add: pow2_def)
  have p3: "pow2 3 = 8" by (simp add: pow2_def)
  have "\<bar>a + PI_double\<bar> \<le> 8" using assms PI_double_bounds by linarith
  then have "\<bar>a + PI_double\<bar> \<le> pow2 3" by (simp only: p3)
  from rnd64_abs_error[OF this]
  obtain t1 where t1: "rnd64 (a + PI_double) = Fin t1" "\<bar>t1 - (a + PI_double)\<bar> \<le> 1 / 2 ^ 50"
    unfolding e50 by auto
  have small: "(1::real) / 2 ^ 50 \<le> 1 / 100" by simp
  have "\<bar>t1 - b\<bar> \<le> 8" using assms PI_double_bounds t1(2) small by linarith
  then have "\<bar>t1 - b\<bar> \<le> pow2 3" by (simp only: p3)
  from rnd64_abs_error[OF this]
  obtain t2 where t2: "rnd64 (t1 - b) = Fin t2" "\<bar>t2 - (t1 - b)\<bar> \<le> 1 / 2 ^ 50"
    unfolding e50 by auto
  have "\<bar>t2\<bar> \<le> 8" using assms PI_double_bounds t1(2) t2(2) small by linarith
  then have "\<bar>t2\<bar> \<le> pow2 3" by (simp only: p3)
  from rnd32_abs_error[OF this]
  obtain v where v: "rnd32 t2 = Fin v" "\<bar>v - t2\<bar> \<le> 1 / 2 ^ 21"
    unfolding e21 by auto
  have "(1::real) / 2 ^ 21 + 1 / 2 ^ 50 + 1 / 2 ^ 50 < 1 / 2 ^ 20" by simp
  then have "\<bar>v - (a + PI_double - b)\<bar> < 1 / 2 ^ 20" using t1(2) t2(2) v(2) by linarith
  moreover have "to_float (fsub rnd64 (fadd rnd64 (Fin a) (Fin PI_double)) (Fin b)) = Fin v"
    using t1(1) t2(1) v(1) by (simp add: fsub_def fneg.simps fadd.simps to_float.simps)
  ultimately show ?thesis by blast
qed

lemma spans32_error:
  assumes bound: "\<forall>n\<in>set s. \<bar>angle n\<bar> \<le> 2" and j: "j < length s"
  shows "\<exists>v. spans32 s ! j = Fin v
           \<and> \<bar>v - (PI_double - circle_gap64 (map angle s) j)\<bar> < 1 / 2 ^ 20"
proof (cases "j = 0")
  case True
  have ne: "s \<noteq> []" using j by auto
  have "\<bar>angle (s ! 0)\<bar> \<le> 2" "\<bar>angle (last s)\<bar> \<le> 2" using bound ne j by simp_all
  from span_zero_error[OF this]
  obtain v where v: "fsub rnd32 (Fin (angle (last s))) (Fin (angle (s ! 0))) = Fin v"
    and e: "\<bar>v - (angle (last s) - angle (s ! 0))\<bar> < 1 / 2 ^ 20" by blast
  have g: "PI_double - circle_gap64 (map angle s) j = angle (last s) - angle (s ! 0)"
    using ne True by (simp add: circle_gap64_def last_map)
  have "spans32 s ! j = Fin v" using True v by (simp add: spans32_nth_0)
  moreover have "\<bar>v - (PI_double - circle_gap64 (map angle s) j)\<bar> < 1 / 2 ^ 20"
    unfolding g by (rule e)
  ultimately show ?thesis by blast
next
  case False
  have "\<bar>angle (s ! (j - 1))\<bar> \<le> 2" "\<bar>angle (s ! j)\<bar> \<le> 2" using bound j by simp_all
  from span_diff_error[OF this]
  obtain v where v: "span_diff32 s j = Fin v"
    and e: "\<bar>v - (angle (s ! (j - 1)) + PI_double - angle (s ! j))\<bar> < 1 / 2 ^ 20"
    unfolding span_diff32_def by blast
  have g: "PI_double - circle_gap64 (map angle s) j
      = angle (s ! (j - 1)) + PI_double - angle (s ! j)"
    using False j by (simp add: circle_gap64_def)
  have "spans32 s ! j = Fin v" using False j v by (simp add: spans32_nth_pos)
  moreover have "\<bar>v - (PI_double - circle_gap64 (map angle s) j)\<bar> < 1 / 2 ^ 20"
    unfolding g by (rule e)
  ultimately show ?thesis by blast
qed

lemma first_least_separated:
  assumes bound: "\<forall>n\<in>set s. \<bar>angle n\<bar> \<le> 2" and k: "k < length s"
    and sep: "\<forall>j<length s. j \<noteq> k \<longrightarrow>
         circle_gap64 (map angle s) j + 1 / 2 ^ 19 \<le> circle_gap64 (map angle s) k"
  shows "first_least (spans32 s) = k"
proof -
  have ne: "s \<noteq> []" using k by auto
  obtain vk where vk: "spans32 s ! k = Fin vk"
    "\<bar>vk - (PI_double - circle_gap64 (map angle s) k)\<bar> < 1 / 2 ^ 20"
    using spans32_error[OF bound k] by blast
  have less: "fless (spans32 s ! k) (spans32 s ! j)" if jl: "j < length s" and jk: "j \<noteq> k" for j
  proof -
    obtain vj where vj: "spans32 s ! j = Fin vj"
      "\<bar>vj - (PI_double - circle_gap64 (map angle s) j)\<bar> < 1 / 2 ^ 20"
      using spans32_error[OF bound jl] by blast
    have "circle_gap64 (map angle s) j + 1 / 2 ^ 19 \<le> circle_gap64 (map angle s) k"
      using sep jl jk by simp
    moreover have "(1::real) / 2 ^ 19 = 1 / 2 ^ 20 + 1 / 2 ^ 20" by simp
    ultimately have "vk < vj" using vk(2) vj(2) by linarith
    then show ?thesis by (simp add: vk(1) vj(1))
  qed
  show ?thesis
  proof (rule first_leastI)
    show "k < length (spans32 s)" using k ne by (simp add: length_spans32)
    show "\<forall>j<length (spans32 s). \<not> fless (spans32 s ! j) (spans32 s ! k)"
    proof (intro allI impI)
      fix j assume "j < length (spans32 s)"
      then have j: "j < length s" using ne by (simp add: length_spans32)
      show "\<not> fless (spans32 s ! j) (spans32 s ! k)"
      proof (cases "j = k")
        case True
        then show ?thesis by simp
      next
        case False
        have "fless (spans32 s ! k) (spans32 s ! j)" using less[OF j False] .
        then show ?thesis using fless_trans[of "spans32 s ! j" "spans32 s ! k" "spans32 s ! j"]
          by auto
      qed
    qed
    show "\<forall>j<k. fless (spans32 s ! k) (spans32 s ! j)"
      using less k by simp
  qed
qed


subsection \<open>Relative error of one rounding\<close>

text \<open>
  A number that is zero or in the range of the normal binary32 numbers is rounded with a
  relative error of at most \<open>2\<^sup>-\<^sup>2\<^sup>4\<close>. The bounds are written as numerals, for the linear
  arithmetic: \<open>2\<^sup>2\<^sup>4 = 16777216\<close>,
  \<open>2\<^sup>1\<^sup>2\<^sup>6 = 85070591730234615865843651857942052864\<close> and
  \<open>2\<^sup>1\<^sup>2\<^sup>7 = 170141183460469231731687303715884105728\<close>.
\<close>

lemma rnd32_rel_error0:
  assumes "x = 0 \<or> 1 / 85070591730234615865843651857942052864 \<le> \<bar>x\<bar>"
    and "\<bar>x\<bar> \<le> 170141183460469231731687303715884105728"
  shows "\<exists>y. rnd32 x = Fin y \<and> \<bar>y - x\<bar> \<le> \<bar>x\<bar> / 16777216"
proof (cases "x = 0")
  case True
  then show ?thesis by (simp add: rnd32_def)
next
  case False
  have "pow2 (- 126) \<le> 1 / 85070591730234615865843651857942052864"
    "(170141183460469231731687303715884105728::real) \<le> pow2 127"
    by (simp_all add: pow2_def)
  then have "pow2 (- 126) \<le> \<bar>x\<bar>" "\<bar>x\<bar> \<le> pow2 127" using assms False by linarith+
  from rnd32_rel_error[OF this] show ?thesis by simp
qed

lemma half_PI_double: "fdiv rnd64 (Fin PI_double) (Fin 2) = Fin (PI_double / 2)"
proof -
  have "rnd64 (PI_double / 2) = Fin (PI_double / 2)"
    unfolding rnd64_def PI_double_def
    by (rule round_fp_eqI[where e = 0 and q = "- 52" and n = 7074237752028440])
      (simp_all add: pow2_def)
  then show ?thesis by (simp add: fdiv.simps)
qed

lemma wrap_angle32_Fin:
  "wrap_angle32 (Fin a) =
     (if a < PI_double / 2 then Fin a else to_float (fsub rnd64 (Fin a) (Fin PI_double)))"
  by (simp add: wrap_angle32_def half_PI_double fge_def)

lemma wrap_angle32_NaN [simp]: "wrap_angle32 NaN = NaN"
  by (simp add: wrap_angle32_def fge_def)

subsection \<open>The circular mean of a single entry\<close>

lemma interpolate_angle32_single:
  "interpolate_angle32 [n] =
     Inr (wrap_angle32
       (fdiv rnd32
          (fadd rnd32 (Fin 0) (fmul rnd32 (Fin (angle n)) (fmul rnd32 (Fin (weight n)) (Fin (magnitude n)))))
          (fadd rnd32 (Fin 0) (fmul rnd32 (Fin (weight n)) (Fin (magnitude n))))))"
proof -
  have s: "sort_by_angle [n] = [n]" by (simp add: sort_by_angle_def)
  have k: "find_split32 [n] 1 md 0 = 0" for md
    by (subst find_split32.simps) simp
  have "angle_sums32 [n] 0 0 (Fin 0, Fin 0)
      = (fadd rnd32 (Fin 0) (fmul rnd32 (Fin (angle n)) (fmul rnd32 (Fin (weight n)) (Fin (magnitude n)))),
         fadd rnd32 (Fin 0) (fmul rnd32 (Fin (weight n)) (Fin (magnitude n))))"
    by (subst angle_sums32.simps, simp add: Let_def add_angle32_def, subst angle_sums32.simps, simp)
  then show ?thesis
    unfolding interpolate_angle32_def s interpolate_angle_sorted32_def Let_def k by simp
qed

lemma single_entry_mean_error:
  assumes th: "\<theta> = 0 \<or> 1 / 2 ^ 100 \<le> \<bar>\<theta>\<bar>" and th2: "\<bar>\<theta>\<bar> \<le> 2"
    and lo: "1 / 2 ^ 20 \<le> w * m" and hi: "w * m \<le> 2 ^ 20"
  shows "\<exists>a. fdiv rnd32
            (fadd rnd32 (Fin 0) (fmul rnd32 (Fin \<theta>) (fmul rnd32 (Fin w) (Fin m))))
            (fadd rnd32 (Fin 0) (fmul rnd32 (Fin w) (Fin m))) = Fin a
          \<and> \<bar>a - \<theta>\<bar> \<le> \<bar>\<theta>\<bar> / 2 ^ 21"
proof -
  have th': "\<theta> = 0 \<or> 1 / 1267650600228229401496703205376 \<le> \<bar>\<theta>\<bar>" using th by simp
  have lo': "1 / 1048576 \<le> w * m" and hi': "w * m \<le> 1048576" using lo hi by simp_all
  \<comment> \<open>the effective weight\<close>
  have "w * m = 0 \<or> 1 / 85070591730234615865843651857942052864 \<le> \<bar>w * m\<bar>"
    "\<bar>w * m\<bar> \<le> 170141183460469231731687303715884105728" using lo' hi' by linarith+
  from rnd32_rel_error0[OF this]
  obtain g where g: "rnd32 (w * m) = Fin g" and ge: "\<bar>g - w * m\<bar> \<le> \<bar>w * m\<bar> / 16777216" by blast
  have g_lo: "1 / 2097152 \<le> g" and g_hi: "g \<le> 2097152" using ge lo' hi' by linarith+
  have gpos: "0 < g" using g_lo by linarith
  \<comment> \<open>the sum of the weights: \<open>0 + g\<close>, rounded\<close>
  have "g = 0 \<or> 1 / 85070591730234615865843651857942052864 \<le> \<bar>g\<bar>"
    "\<bar>g\<bar> \<le> 170141183460469231731687303715884105728" using g_lo g_hi by linarith+
  from rnd32_rel_error0[OF this]
  obtain d where d: "rnd32 g = Fin d" and de: "\<bar>d - g\<bar> \<le> \<bar>g\<bar> / 16777216" by blast
  have d_lo: "g * (16777215 / 16777216) \<le> d" using de gpos by linarith
  have dpos: "0 < d" using d_lo gpos by linarith
  \<comment> \<open>the product of the angle and the effective weight\<close>
  define T where "T = \<bar>\<theta>\<bar> * g"
  have T0: "0 \<le> T" using gpos by (simp add: T_def)
  have absx: "\<bar>\<theta> * g\<bar> = T" using gpos by (simp add: T_def abs_mult)
  have T_hi: "T \<le> 4194304"
  proof -
    have "\<bar>\<theta>\<bar> * g \<le> 2 * 2097152" using th2 g_hi gpos by (intro mult_mono) simp_all
    then show ?thesis by (simp add: T_def)
  qed
  have T_lo: "\<theta> = 0 \<or> 1 / 2658455991569831745807614120560689152 \<le> T"
  proof (cases "\<theta> = 0")
    case False
    then have "1 / 1267650600228229401496703205376 \<le> \<bar>\<theta>\<bar>" using th' by simp
    then have "(1 / 1267650600228229401496703205376) * (1 / 2097152) \<le> \<bar>\<theta>\<bar> * g"
      using g_lo by (intro mult_mono) simp_all
    then show ?thesis by (simp add: T_def)
  qed simp
  have T_zero: "\<theta> = 0 \<Longrightarrow> T = 0" by (simp add: T_def)
  have "\<theta> * g = 0 \<or> 1 / 85070591730234615865843651857942052864 \<le> \<bar>\<theta> * g\<bar>"
    using T_lo gpos unfolding absx by (cases "\<theta> = 0") simp_all
  moreover have "\<bar>\<theta> * g\<bar> \<le> 170141183460469231731687303715884105728"
    unfolding absx using T_hi by linarith
  ultimately obtain p where p: "rnd32 (\<theta> * g) = Fin p" and pe: "\<bar>p - \<theta> * g\<bar> \<le> T / 16777216"
    using rnd32_rel_error0[of "\<theta> * g"] unfolding absx by blast
  \<comment> \<open>the sum of the angles: \<open>0 + p\<close>, rounded\<close>
  have p_abs: "\<bar>p\<bar> \<le> T + T / 16777216" "T - T / 16777216 \<le> \<bar>p\<bar>" using pe absx by linarith+
  have "p = 0 \<or> 1 / 85070591730234615865843651857942052864 \<le> \<bar>p\<bar>"
  proof (cases "\<theta> = 0")
    case True
    then have "p = 0" using pe T_zero by simp
    then show ?thesis by simp
  next
    case False
    then have "1 / 2658455991569831745807614120560689152 \<le> T" using T_lo by simp
    then show ?thesis using p_abs(2) by linarith
  qed
  moreover have "\<bar>p\<bar> \<le> 170141183460469231731687303715884105728" using p_abs(1) T_hi by linarith
  ultimately obtain s where s: "rnd32 p = Fin s" and se: "\<bar>s - p\<bar> \<le> \<bar>p\<bar> / 16777216"
    using rnd32_rel_error0[of p] by blast
  have s_err: "\<bar>s - \<theta> * g\<bar> \<le> T * (3 / 16777216)" using se pe p_abs(1) T0 by linarith
  \<comment> \<open>the quotient\<close>
  define x where "x = s / d"
  have "(x - \<theta>) * d = (s - \<theta> * g) + \<theta> * (g - d)" using dpos by (simp add: x_def algebra_simps)
  then have "\<bar>(x - \<theta>) * d\<bar> \<le> \<bar>s - \<theta> * g\<bar> + \<bar>\<theta> * (g - d)\<bar>" by (simp only: abs_triangle_ineq)
  then have "\<bar>x - \<theta>\<bar> * d \<le> \<bar>s - \<theta> * g\<bar> + \<bar>\<theta>\<bar> * \<bar>g - d\<bar>"
    using dpos by (simp add: abs_mult)
  moreover have "\<bar>\<theta>\<bar> * \<bar>g - d\<bar> \<le> \<bar>\<theta>\<bar> * (g / 16777216)"
  proof (rule mult_left_mono)
    show "\<bar>g - d\<bar> \<le> g / 16777216" using de gpos by linarith
  qed simp
  moreover have "\<bar>\<theta>\<bar> * (g / 16777216) = T / 16777216" by (simp add: T_def)
  ultimately have xd: "\<bar>x - \<theta>\<bar> * d \<le> T * (4 / 16777216)" using s_err by linarith
  define D where "D = \<bar>x - \<theta>\<bar>"
  define t where "t = \<bar>\<theta>\<bar>"
  have D0: "0 \<le> D" and t0: "0 \<le> t" by (simp_all add: D_def t_def)
  have xd': "D * d \<le> T * (4 / 16777216)" using xd by (simp add: D_def)
  have "D * (g * (16777215 / 16777216)) \<le> D * d"
    using d_lo D0 by (rule mult_left_mono)
  then have "D * (g * (16777215 / 16777216)) \<le> T * (4 / 16777216)" using xd' by linarith
  then have "(D * (16777215 / 16777216)) * g \<le> (t * (4 / 16777216)) * g"
    by (simp add: T_def t_def algebra_simps)
  then have xe: "D * (16777215 / 16777216) \<le> t * (4 / 16777216)"
    using gpos by (simp only: mult_le_cancel_right_pos)
  have tri: "\<bar>x\<bar> \<le> t + D" "t \<le> \<bar>x\<bar> + D" unfolding D_def t_def by linarith+
  have x_abs: "\<bar>x\<bar> \<le> 2 * t" "t / 2 \<le> \<bar>x\<bar>" using xe tri t0 D0 by linarith+
  have "x = 0 \<or> 1 / 85070591730234615865843651857942052864 \<le> \<bar>x\<bar>"
  proof (cases "\<theta> = 0")
    case True
    then show ?thesis using x_abs(1) by (simp add: t_def)
  next
    case False
    then have "1 / 1267650600228229401496703205376 \<le> t" using th' by (simp add: t_def)
    then show ?thesis using x_abs(2) by linarith
  qed
  moreover have "\<bar>x\<bar> \<le> 170141183460469231731687303715884105728"
    using x_abs(1) th2 by (simp add: t_def)
  ultimately obtain a where a: "rnd32 x = Fin a" and ae: "\<bar>a - x\<bar> \<le> \<bar>x\<bar> / 16777216"
    using rnd32_rel_error0[of x] by blast
  have "\<bar>a - \<theta>\<bar> \<le> \<bar>a - x\<bar> + D" unfolding D_def by linarith
  then have "\<bar>a - \<theta>\<bar> \<le> t / 2097152" using ae xe x_abs(1) t0 D0 by linarith
  then have "\<bar>a - \<theta>\<bar> \<le> \<bar>\<theta>\<bar> / 2 ^ 21" by (simp add: t_def)
  moreover have "fdiv rnd32
       (fadd rnd32 (Fin 0) (fmul rnd32 (Fin \<theta>) (fmul rnd32 (Fin w) (Fin m))))
       (fadd rnd32 (Fin 0) (fmul rnd32 (Fin w) (Fin m))) = Fin a"
    using g d p s a dpos by (simp add: fmul.simps fadd.simps fdiv.simps x_def)
  ultimately show ?thesis by blast
qed


subsection \<open>The weighted magnitude mean of gated candidates\<close>

lemma lo_power_bounds:
  assumes "k \<le> 2000"
  shows "(1::real) / 2 \<le> (16777215 / 16777216) ^ k" and "((16777215::real) / 16777216) ^ k \<le> 1"
proof -
  have "1 + real k * (- (1 / 16777216)) \<le> (1 + (- (1 / 16777216))) ^ k"
    by (rule Bernoulli_inequality) simp
  moreover have "real k \<le> 2000" using assms by simp
  ultimately show "(1::real) / 2 \<le> (16777215 / 16777216) ^ k" by simp
  show "((16777215::real) / 16777216) ^ k \<le> 1" by (rule power_le_one) simp_all
qed

lemma hi_power_bounds:
  assumes "k \<le> 2000"
  shows "(1::real) \<le> (16777217 / 16777216) ^ k" and "((16777217::real) / 16777216) ^ k \<le> 2"
proof -
  show "(1::real) \<le> (16777217 / 16777216) ^ k" by (rule one_le_power) simp
  have "((16777217::real) / 16777216) ^ k * (16777215 / 16777216) ^ k
      = ((16777217 / 16777216) * (16777215 / 16777216)) ^ k"
    by (simp only: power_mult_distrib)
  also have "\<dots> \<le> 1" by (rule power_le_one) simp_all
  finally have "((16777217::real) / 16777216) ^ k * (16777215 / 16777216) ^ k \<le> 1" .
  moreover have "((16777217::real) / 16777216) ^ k * (1 / 2)
      \<le> (16777217 / 16777216) ^ k * (16777215 / 16777216) ^ k"
    by (rule mult_left_mono[OF lo_power_bounds(1)[OF assms]]) simp
  ultimately show "((16777217::real) / 16777216) ^ k \<le> 2" by linarith
qed


lemma rnd32_nonneg_bounds:
  assumes "x = 0 \<or> 1 / 85070591730234615865843651857942052864 \<le> x"
    and "0 \<le> x" and "x \<le> 170141183460469231731687303715884105728"
  shows "\<exists>y. rnd32 x = Fin y \<and> x * (16777215 / 16777216) \<le> y \<and> y \<le> x * (16777217 / 16777216)"
proof -
  have "x = 0 \<or> 1 / 85070591730234615865843651857942052864 \<le> \<bar>x\<bar>"
    "\<bar>x\<bar> \<le> 170141183460469231731687303715884105728" using assms by linarith+
  from rnd32_rel_error0[OF this]
  obtain y where "rnd32 x = Fin y" "\<bar>y - x\<bar> \<le> \<bar>x\<bar> / 16777216" by blast
  moreover from this assms(2) have "x * (16777215 / 16777216) \<le> y" "y \<le> x * (16777217 / 16777216)"
    by linarith+
  ultimately show ?thesis by blast
qed

lemma sums_ok_step:
  assumes inv: "sums_ok k m0 \<sigma> sv wv"
    and cand: "gated_candidate m0 n"
    and m0: "1 / 1152921504606846976 \<le> m0"
    and k: "Suc k \<le> 1024"
  shows "\<exists>sv' wv'.
      fadd rnd32 (Fin sv) (fmul rnd32 (Fin (weight n)) (Fin (magnitude n))) = Fin sv'
    \<and> fadd rnd32 (Fin wv) (Fin (weight n)) = Fin wv'
    \<and> sums_ok (Suc k) m0 (\<sigma> + weight n) sv' wv'"
proof -
  define w where "w = weight n"
  define m where "m = magnitude n"
  define a where "a = ((16777215::real) / 16777216) ^ k"
  define b where "b = ((16777217::real) / 16777216) ^ k"
  define \<sigma>' where "\<sigma>' = \<sigma> + w"
  \<comment> \<open>the powers\<close>
  have a1: "a \<le> 1" unfolding a_def by (rule lo_power_bounds(2)) (use k in simp)
  have "(1::real) / 2 \<le> (16777215 / 16777216) ^ Suc (Suc k)"
    by (rule lo_power_bounds(1)) (use k in simp)
  then have a2: "1 / 2 \<le> a * (16777215 / 16777216) * (16777215 / 16777216)"
    by (simp add: a_def)
  have b1: "1 \<le> b" unfolding b_def by (rule hi_power_bounds(1)) (use k in simp)
  have "((16777217::real) / 16777216) ^ Suc (Suc k) \<le> 2"
    by (rule hi_power_bounds(2)) (use k in simp)
  then have b2: "b * (16777217 / 16777216) * (16777217 / 16777216) \<le> 2"
    by (simp add: b_def)
  have a_half: "1 / 2 \<le> a" and b_two: "b \<le> 2" using a1 a2 b1 b2 by linarith+
  \<comment> \<open>the candidate\<close>
  have w0: "w = 0 \<or> 1 / 1152921504606846976 \<le> w" and w1: "w \<le> 1"
    and mlo: "m0 \<le> m" and mhi: "m \<le> 1152921504606846976"
    using cand by (simp_all add: gated_candidate_def w_def m_def)
  have wnn: "0 \<le> w" using w0 by linarith
  have m0pos: "0 < m0" using m0 by linarith
  \<comment> \<open>the invariant\<close>
  have s0: "\<sigma> = 0 \<or> 1 / 1152921504606846976 \<le> \<sigma>" and s1: "\<sigma> \<le> real k"
    and wlo: "a * \<sigma> \<le> wv" and whi: "wv \<le> b * \<sigma>"
    and vlo: "(16777215 / 16777216) * (a * (m0 * \<sigma>)) \<le> sv"
    and vhi: "sv \<le> (16777217 / 16777216) * (b * (1152921504606846976 * \<sigma>))"
    using inv by (simp_all add: sums_ok_def a_def b_def mult.assoc)
  have snn: "0 \<le> \<sigma>" using s0 by linarith
  have s0': "\<sigma>' = 0 \<or> 1 / 1152921504606846976 \<le> \<sigma>'"
    using s0 w0 snn wnn by (auto simp add: \<sigma>'_def)
  have s1': "\<sigma>' \<le> real (Suc k)" using s1 w1 by (simp add: \<sigma>'_def)
  have s'nn: "0 \<le> \<sigma>'" using snn wnn by (simp add: \<sigma>'_def)
  have s'1024: "\<sigma>' \<le> 1024" using s1' k by simp
  have zero_case: "\<sigma> = 0 \<and> w = 0" if "\<sigma>' = 0"
    using that snn wnn by (simp add: \<sigma>'_def)
  \<comment> \<open>the product of the weight and the magnitude\<close>
  define x where "x = w * m"
  define y0 where "y0 = w * m0"
  have y0nn: "0 \<le> y0" using wnn m0pos by (simp add: y0_def)
  have x_lo: "y0 \<le> x" unfolding x_def y0_def using mlo wnn by (rule mult_left_mono)
  have x_hi: "x \<le> w * 1152921504606846976" unfolding x_def using mhi wnn by (rule mult_left_mono)
  have xnn: "0 \<le> x" using y0nn x_lo by linarith
  have x_zn: "x = 0 \<or> 1 / 85070591730234615865843651857942052864 \<le> x"
  proof (cases "w = 0")
    case True
    then show ?thesis by (simp add: x_def)
  next
    case False
    then have "1 / 1152921504606846976 \<le> w" using w0 by simp
    then have "(1 / 1152921504606846976) * (1 / 1152921504606846976) \<le> w * m0"
      using m0 by (intro mult_mono) simp_all
    then show ?thesis using x_lo by (simp add: y0_def)
  qed
  have "x \<le> 170141183460469231731687303715884105728" using x_hi w1 by linarith
  from rnd32_nonneg_bounds[OF x_zn xnn this]
  obtain pv where pv: "rnd32 x = Fin pv" and pv_lo: "x * (16777215 / 16777216) \<le> pv"
    and pv_hi: "pv \<le> x * (16777217 / 16777216)" by blast
  \<comment> \<open>the sum of the weighted magnitudes\<close>
  define \<mu>' where "\<mu>' = m0 * \<sigma>'"
  define am where "am = a * (m0 * \<sigma>)"
  define ay where "ay = a * y0"
  define am' where "am' = a * \<mu>'"
  have am': "am' = am + ay"
    by (simp add: am'_def am_def ay_def \<mu>'_def y0_def \<sigma>'_def algebra_simps)
  have mu'nn: "0 \<le> \<mu>'" using m0pos s'nn by (simp add: \<mu>'_def)
  have ay0: "ay \<le> y0" using mult_right_mono[OF a1 y0nn] by (simp add: ay_def)
  have vlo': "(16777215 / 16777216) * am \<le> sv" using vlo by (simp add: am_def)
  define z where "z = sv + pv"
  have z_lo: "(16777215 / 16777216) * am' \<le> z"
    using vlo' pv_lo x_lo ay0 unfolding z_def am' by argo
  define \<nu>' where "\<nu>' = 1152921504606846976 * \<sigma>'"
  define bn where "bn = b * (1152921504606846976 * \<sigma>)"
  define bw where "bw = b * (w * 1152921504606846976)"
  define bn' where "bn' = b * \<nu>'"
  have bn': "bn' = bn + bw"
    by (simp add: bn'_def bn_def bw_def \<nu>'_def \<sigma>'_def algebra_simps)
  have nu'nn: "0 \<le> \<nu>'" using s'nn by (simp add: \<nu>'_def)
  have bMw: "w * 1152921504606846976 \<le> bw"
    using mult_right_mono[OF b1, of "w * 1152921504606846976"] wnn by (simp add: bw_def)
  have vhi': "sv \<le> (16777217 / 16777216) * bn" using vhi by (simp add: bn_def)
  have z_hi: "z \<le> (16777217 / 16777216) * bn'"
    using vhi' pv_hi x_hi bMw unfolding z_def bn' by argo
  have a_mu': "(1 / 2) * \<mu>' \<le> am'" unfolding am'_def using a_half mu'nn by (rule mult_right_mono)
  have b_nu': "bn' \<le> 2 * \<nu>'" unfolding bn'_def using b_two nu'nn by (rule mult_right_mono)
  have znn: "0 \<le> z" using z_lo a_mu' mu'nn by linarith
  have z_zn: "z = 0 \<or> 1 / 85070591730234615865843651857942052864 \<le> z"
  proof (cases "\<sigma>' = 0")
    case True
    then have "\<sigma> = 0" "w = 0" using zero_case by simp_all
    then have "sv = 0" "x = 0" using vlo vhi by (simp_all add: x_def)
    then have "z = 0" using pv_lo pv_hi by (simp add: z_def)
    then show ?thesis by simp
  next
    case False
    then have "1 / 1152921504606846976 \<le> \<sigma>'" using s0' by simp
    then have "(1 / 1152921504606846976) * (1 / 1152921504606846976) \<le> m0 * \<sigma>'"
      using m0 by (intro mult_mono) simp_all
    then have "1 / 1329227995784915872903807060280344576 \<le> \<mu>'" by (simp add: \<mu>'_def)
    then show ?thesis using z_lo a_mu' by linarith
  qed
  have "\<nu>' \<le> 1152921504606846976 * 1024" using s'1024 by (simp add: \<nu>'_def)
  then have "z \<le> 170141183460469231731687303715884105728"
    using z_hi b_nu' by linarith
  from rnd32_nonneg_bounds[OF z_zn znn this]
  obtain sv' where sv': "rnd32 z = Fin sv'" and sv'_lo: "z * (16777215 / 16777216) \<le> sv'"
    and sv'_hi: "sv' \<le> z * (16777217 / 16777216)" by blast
  \<comment> \<open>the sum of the weights\<close>
  define as where "as = a * \<sigma>"
  define aw where "aw = a * w"
  define as' where "as' = a * \<sigma>'"
  define bs where "bs = b * \<sigma>"
  define bw1 where "bw1 = b * w"
  define bs' where "bs' = b * \<sigma>'"
  have as': "as' = as + aw" by (simp add: as'_def as_def aw_def \<sigma>'_def algebra_simps)
  have aw: "aw \<le> w" using mult_right_mono[OF a1 wnn] by (simp add: aw_def)
  have bs': "bs' = bs + bw1" by (simp add: bs'_def bs_def bw1_def \<sigma>'_def algebra_simps)
  have bw1: "w \<le> bw1" using mult_right_mono[OF b1 wnn] by (simp add: bw1_def)
  have wlo': "as \<le> wv" and whi': "wv \<le> bs" using wlo whi by (simp_all add: as_def bs_def)
  define y where "y = wv + w"
  have y_lo: "as' \<le> y" using wlo' aw unfolding y_def as' by linarith
  have y_hi: "y \<le> bs'" using whi' bw1 unfolding y_def bs' by linarith
  have a_s': "(1 / 2) * \<sigma>' \<le> as'" unfolding as'_def using a_half s'nn by (rule mult_right_mono)
  have b_s': "bs' \<le> 2 * \<sigma>'" unfolding bs'_def using b_two s'nn by (rule mult_right_mono)
  have ynn: "0 \<le> y" using y_lo a_s' s'nn by linarith
  have y_zn: "y = 0 \<or> 1 / 85070591730234615865843651857942052864 \<le> y"
  proof (cases "\<sigma>' = 0")
    case True
    then have "\<sigma> = 0" "w = 0" using zero_case by simp_all
    then have "y = 0" using wlo whi by (simp add: y_def)
    then show ?thesis by simp
  next
    case False
    then have "1 / 1152921504606846976 \<le> \<sigma>'" using s0' by simp
    then show ?thesis using y_lo a_s' by linarith
  qed
  have "y \<le> 170141183460469231731687303715884105728" using y_hi b_s' s'1024 by linarith
  from rnd32_nonneg_bounds[OF y_zn ynn this]
  obtain wv' where wv': "rnd32 y = Fin wv'" and wv'_lo: "y * (16777215 / 16777216) \<le> wv'"
    and wv'_hi: "wv' \<le> y * (16777217 / 16777216)" by blast
  \<comment> \<open>the invariant after the step\<close>
  have "sums_ok (Suc k) m0 \<sigma>' sv' wv'"
    unfolding sums_ok_def
  proof (intro conjI)
    show "\<sigma>' = 0 \<or> 1 / 1152921504606846976 \<le> \<sigma>'" by (rule s0')
    show "\<sigma>' \<le> real (Suc k)" by (rule s1')
    have "(16777215 / 16777216) ^ Suc k * \<sigma>' = (16777215 / 16777216) * as'"
      by (simp add: a_def as'_def)
    then show "(16777215 / 16777216) ^ Suc k * \<sigma>' \<le> wv'" using y_lo wv'_lo by linarith
    have "(16777217 / 16777216) ^ Suc k * \<sigma>' = (16777217 / 16777216) * bs'"
      by (simp add: b_def bs'_def)
    then show "wv' \<le> (16777217 / 16777216) ^ Suc k * \<sigma>'" using y_hi wv'_hi by linarith
    have "(16777215 / 16777216) ^ Suc (Suc k) * (m0 * \<sigma>')
        = (16777215 / 16777216) * ((16777215 / 16777216) * am')"
      by (simp add: a_def am'_def \<mu>'_def)
    then show "(16777215 / 16777216) ^ Suc (Suc k) * (m0 * \<sigma>') \<le> sv'"
      using z_lo sv'_lo by linarith
    have "(16777217 / 16777216) ^ Suc (Suc k) * (1152921504606846976 * \<sigma>')
        = (16777217 / 16777216) * ((16777217 / 16777216) * bn')"
      by (simp add: b_def bn'_def \<nu>'_def)
    then show "sv' \<le> (16777217 / 16777216) ^ Suc (Suc k) * (1152921504606846976 * \<sigma>')"
      using z_hi sv'_hi by linarith
  qed
  moreover have "fadd rnd32 (Fin sv) (fmul rnd32 (Fin (weight n)) (Fin (magnitude n))) = Fin sv'"
    using pv sv' by (simp add: fmul.simps fadd.simps x_def z_def w_def m_def)
  moreover have "fadd rnd32 (Fin wv) (Fin (weight n)) = Fin wv'"
    using wv' by (simp add: fadd.simps y_def w_def)
  ultimately show ?thesis unfolding \<sigma>'_def w_def by blast
qed


lemma magnitude_sums32_ok:
  assumes "\<forall>n\<in>set ns. gated_candidate m0 n"
    and "1 / 1152921504606846976 \<le> m0"
    and "sums_ok k m0 \<sigma> sv wv"
    and "k + length ns \<le> 1024"
  shows "\<exists>sv' wv'. magnitude_sums32 ns (Fin sv, Fin wv) = (Fin sv', Fin wv')
           \<and> sums_ok (k + length ns) m0 (\<sigma> + sum_list (map weight ns)) sv' wv'"
  using assms
proof (induction ns arbitrary: k \<sigma> sv wv)
  case Nil
  then show ?case by simp
next
  case (Cons n ns)
  have cand: "gated_candidate m0 n" using Cons.prems(1) by simp
  have k: "Suc k \<le> 1024" using Cons.prems(4) by simp
  from sums_ok_step[OF Cons.prems(3) cand Cons.prems(2) k]
  obtain sv1 wv1 where
    s1: "fadd rnd32 (Fin sv) (fmul rnd32 (Fin (weight n)) (Fin (magnitude n))) = Fin sv1"
    and w1: "fadd rnd32 (Fin wv) (Fin (weight n)) = Fin wv1"
    and ok1: "sums_ok (Suc k) m0 (\<sigma> + weight n) sv1 wv1" by blast
  have "\<exists>sv' wv'. magnitude_sums32 ns (Fin sv1, Fin wv1) = (Fin sv', Fin wv')
           \<and> sums_ok (Suc k + length ns) m0 (\<sigma> + weight n + sum_list (map weight ns)) sv' wv'"
  proof (rule Cons.IH[OF _ Cons.prems(2) ok1])
    show "\<forall>n\<in>set ns. gated_candidate m0 n" using Cons.prems(1) by simp
    show "Suc k + length ns \<le> 1024" using Cons.prems(4) by simp
  qed
  then show ?case by (simp add: s1 w1 add.assoc)
qed

lemma sum_list_weights_ge:
  assumes "\<forall>n\<in>set ns. 0 \<le> weight n" and "n \<in> set ns"
  shows "weight n \<le> sum_list (map weight ns)"
  using assms
proof (induction ns)
  case Nil
  then show ?case by simp
next
  case (Cons a ns)
  have nn: "0 \<le> sum_list (map weight ns)"
    using Cons.prems(1) by (intro sum_list_nonneg) auto
  show ?case
  proof (cases "n = a")
    case True
    then show ?thesis using nn by simp
  next
    case False
    then have "weight n \<le> sum_list (map weight ns)" using Cons by simp
    moreover have "0 \<le> weight a" using Cons.prems(1) by simp
    ultimately show ?thesis by simp
  qed
qed

lemma interpolate_magnitude32_lower:
  assumes cands: "\<forall>n\<in>set ns. gated_candidate m0 n"
    and m0: "1 / 1152921504606846976 \<le> m0"
    and pos: "\<exists>n\<in>set ns. weight n \<noteq> 0"
    and len: "length ns \<le> 1000"
  shows "\<exists>v. interpolate_magnitude32 ns = Fin v
           \<and> m0 * (1 - (2 * real (length ns) + 2) / 16777216) \<le> v"
proof -
  define N where "N = length ns"
  define \<sigma> where "\<sigma> = sum_list (map weight ns)"
  define A where "A = ((16777215::real) / 16777216) ^ N"
  define B where "B = ((16777217::real) / 16777216) ^ N"
  have N: "N \<le> 1000" using len by (simp add: N_def)
  have "sums_ok 0 m0 0 0 0" by (simp add: sums_ok_def)
  from magnitude_sums32_ok[OF cands m0 this]
  obtain sv wv where sums: "magnitude_sums32 ns (Fin 0, Fin 0) = (Fin sv, Fin wv)"
    and ok: "sums_ok N m0 \<sigma> sv wv"
    using len by (auto simp add: N_def \<sigma>_def)
  have s0: "\<sigma> = 0 \<or> 1 / 1152921504606846976 \<le> \<sigma>" and s1: "\<sigma> \<le> real N"
    and wlo: "A * \<sigma> \<le> wv" and whi: "wv \<le> B * \<sigma>"
    and vlo: "(16777215 / 16777216) * (A * (m0 * \<sigma>)) \<le> sv"
    and vhi: "sv \<le> (16777217 / 16777216) * (B * (1152921504606846976 * \<sigma>))"
    using ok by (simp_all add: sums_ok_def A_def B_def mult.assoc)
  \<comment> \<open>the sum of the weights is positive\<close>
  obtain n where n: "n \<in> set ns" "weight n \<noteq> 0" using pos by blast
  have wnn: "\<forall>n\<in>set ns. 0 \<le> weight n"
    using cands by (auto simp add: gated_candidate_def)
  have "1 / 1152921504606846976 \<le> weight n"
    using cands n by (auto simp add: gated_candidate_def)
  moreover have "weight n \<le> \<sigma>" unfolding \<sigma>_def using wnn n(1) by (rule sum_list_weights_ge)
  ultimately have spos: "1 / 1152921504606846976 \<le> \<sigma>" by linarith
  have m0pos: "0 < m0" using m0 by linarith
  \<comment> \<open>the powers\<close>
  have A1: "A \<le> 1" and Ah: "1 / 2 \<le> A" unfolding A_def
    by (rule lo_power_bounds(2), use N in simp) (rule lo_power_bounds(1), use N in simp)
  have B1: "1 \<le> B" and B2: "B \<le> 2" unfolding B_def
    by (rule hi_power_bounds(1), use N in simp) (rule hi_power_bounds(2), use N in simp)
  have "A * B = ((16777215 / 16777216) * (16777217 / 16777216)) ^ N"
    by (simp only: A_def B_def power_mult_distrib)
  also have "\<dots> \<le> 1" by (rule power_le_one) simp_all
  finally have AB: "A * B \<le> 1" .
  \<comment> \<open>the quotient of the sums\<close>
  define as where "as = A * \<sigma>"
  define bs where "bs = B * \<sigma>"
  define ms where "ms = m0 * \<sigma>"
  have msnn: "0 \<le> ms" using m0pos spos by (simp add: ms_def)
  have as_lo: "(1 / 2) * \<sigma> \<le> as" unfolding as_def using Ah spos by (intro mult_right_mono) simp_all
  have bs_hi: "bs \<le> 2 * \<sigma>" unfolding bs_def using B2 spos by (intro mult_right_mono) simp_all
  have wlo': "as \<le> wv" and whi': "wv \<le> bs" using wlo whi by (simp_all add: as_def bs_def)
  have wvpos: "0 < wv" using wlo' as_lo spos by linarith
  define c where "c = (16777215 / 16777216) * (A * (A * m0))"
  have cnn: "0 \<le> c" using Ah m0pos by (simp add: c_def)
  have "c * wv \<le> c * bs" using whi' cnn by (rule mult_left_mono)
  also have "c * bs = (16777215 / 16777216) * ((A * B) * (A * ms))"
    by (simp add: c_def bs_def ms_def algebra_simps)
  also have "\<dots> \<le> (16777215 / 16777216) * (1 * (A * ms))"
  proof (rule mult_left_mono)
    show "A * B * (A * ms) \<le> 1 * (A * ms)"
      using AB by (rule mult_right_mono) (use Ah msnn in simp)
  qed simp
  also have "\<dots> \<le> sv" using vlo by (simp add: ms_def)
  finally have "c * wv \<le> sv" .
  define q where "q = sv / wv"
  have q_lo: "c \<le> q" unfolding q_def using \<open>c * wv \<le> sv\<close> wvpos by (simp add: pos_le_divide_eq)
  have Am: "(1 / 2) * m0 \<le> A * m0" using Ah m0pos by (intro mult_right_mono) simp_all
  have "(1 / 2) * ((1 / 2) * m0) \<le> A * (A * m0)"
    using Ah Am m0pos by (intro mult_mono) simp_all
  then have c_lo: "(16777215 / 16777216) * ((1 / 4) * m0) \<le> c" by (simp add: c_def)
  have "sv \<le> (16777217 / 16777216) * (1152921504606846976 * bs)"
    using vhi by (simp add: bs_def algebra_simps)
  then have "sv \<le> 1152921504606846976 * 8 * wv" using bs_hi wlo' as_lo spos by linarith
  then have q_hi: "q \<le> 1152921504606846976 * 8" unfolding q_def using wvpos
    by (simp add: pos_divide_le_eq)
  have qnn: "0 \<le> q" using q_lo cnn by linarith
  have "q = 0 \<or> 1 / 85070591730234615865843651857942052864 \<le> q"
    using q_lo c_lo m0 by linarith
  moreover have "q \<le> 170141183460469231731687303715884105728" using q_hi by linarith
  ultimately obtain v where v: "rnd32 q = Fin v" and v_lo: "q * (16777215 / 16777216) \<le> v"
    using rnd32_nonneg_bounds[OF _ qnn] by blast
  \<comment> \<open>the bound\<close>
  have "1 + real (2 * N + 2) * (- (1 / 16777216)) \<le> (1 + (- (1 / 16777216))) ^ (2 * N + 2)"
    by (rule Bernoulli_inequality) simp
  also have "(1 + (- (1 / 16777216))) ^ (2 * N + 2)
      = (16777215 / 16777216) * ((16777215 / 16777216) * (A * A))"
  proof -
    have e: "2 * N + 2 = Suc (Suc (N + N))" by simp
    show ?thesis unfolding e by (simp add: A_def power_add)
  qed
  finally have bern: "1 - (2 * real N + 2) / 16777216
      \<le> (16777215 / 16777216) * ((16777215 / 16777216) * (A * A))"
    by (simp add: algebra_simps)
  have "m0 * (1 - (2 * real N + 2) / 16777216)
      \<le> m0 * ((16777215 / 16777216) * ((16777215 / 16777216) * (A * A)))"
    using bern m0pos by (intro mult_left_mono) simp_all
  also have "\<dots> = (16777215 / 16777216) * c" by (simp add: c_def algebra_simps)
  also have "\<dots> \<le> v" using q_lo v_lo by linarith
  finally have "m0 * (1 - (2 * real (length ns) + 2) / 16777216) \<le> v" by (simp add: N_def)
  moreover have "interpolate_magnitude32 ns = Fin v"
    using sums v wvpos by (simp add: interpolate_magnitude32_def fdiv.simps q_def)
  ultimately show ?thesis by blast
qed


subsection \<open>Candidates of magnitude zero\<close>

lemma mean_step32_zero_magnitude:
  assumes "magnitude n = 0" and "a = Fin 0 \<or> a = NaN"
  shows "\<exists>a'. mean_step32 k (a, Fin 0) (i, n) = (a', Fin 0) \<and> (a' = Fin 0 \<or> a' = NaN)"
proof -
  have mw: "fmul rnd32 (Fin (weight n)) (Fin (magnitude n)) = Fin 0"
    using assms(1) by (simp add: fmul.simps rnd32_def)
  have plain: "fadd rnd32 a (fmul rnd32 (Fin (angle n)) (Fin 0)) = Fin 0
      \<or> fadd rnd32 a (fmul rnd32 (Fin (angle n)) (Fin 0)) = NaN"
    using assms(2) by (auto simp add: fmul.simps fadd.simps rnd32_def)
  have "fmul rnd64 (fadd rnd64 (Fin (angle n)) (Fin PI_double)) (Fin 0) = Fin 0
      \<or> fmul rnd64 (fadd rnd64 (Fin (angle n)) (Fin PI_double)) (Fin 0) = NaN"
    by (cases "rnd64 (angle n + PI_double)") (simp_all add: fadd.simps fmul.simps rnd64_def)
  then have "fadd rnd64 a (fmul rnd64 (fadd rnd64 (Fin (angle n)) (Fin PI_double)) (Fin 0)) = Fin 0
      \<or> fadd rnd64 a (fmul rnd64 (fadd rnd64 (Fin (angle n)) (Fin PI_double)) (Fin 0)) = NaN"
    using assms(2) by (auto simp add: fadd.simps rnd64_def)
  then have shifted: "to_float (fadd rnd64 a (fmul rnd64 (fadd rnd64 (Fin (angle n)) (Fin PI_double)) (Fin 0))) = Fin 0
      \<or> to_float (fadd rnd64 a (fmul rnd64 (fadd rnd64 (Fin (angle n)) (Fin PI_double)) (Fin 0))) = NaN"
    by (auto simp add: to_float.simps rnd32_def)
  have z: "fadd rnd32 (Fin 0) (Fin 0) = Fin 0" by (simp add: fadd.simps rnd32_def)
  show ?thesis
  proof (cases "i < k")
    case True
    then show ?thesis using shifted by (auto simp add: mean_step32_def Let_def mw add_angle32_def z)
  next
    case False
    then show ?thesis using plain by (auto simp add: mean_step32_def Let_def mw add_angle32_def z)
  qed
qed

lemma foldl_mean_step32_zero_magnitudes:
  assumes "\<forall>n\<in>set s. magnitude n = 0" and "a = Fin 0 \<or> a = NaN"
  shows "\<exists>a'. foldl (mean_step32 k) (a, Fin 0) (enumerate i s) = (a', Fin 0)
           \<and> (a' = Fin 0 \<or> a' = NaN)"
  using assms
proof (induction s arbitrary: a i)
  case Nil
  then show ?case by simp
next
  case (Cons n s)
  have "magnitude n = 0" using Cons.prems(1) by simp
  from mean_step32_zero_magnitude[OF this Cons.prems(2)]
  obtain a1 where a1: "mean_step32 k (a, Fin 0) (i, n) = (a1, Fin 0)" "a1 = Fin 0 \<or> a1 = NaN"
    by blast
  have "\<exists>a'. foldl (mean_step32 k) (a1, Fin 0) (enumerate (Suc i) s) = (a', Fin 0)
           \<and> (a' = Fin 0 \<or> a' = NaN)"
    using Cons.prems(1) a1(2) by (intro Cons.IH) simp_all
  then show ?case by (simp add: a1(1))
qed

lemma interpolate_angle32_zero_magnitudes:
  assumes "ns \<noteq> []" and "\<forall>n\<in>set ns. magnitude n = 0"
  shows "interpolate_angle32 ns = Inr NaN"
proof -
  define s where "s = sort_by_angle ns"
  have ne: "s \<noteq> []" using assms(1) by (cases ns) (simp_all add: s_def sort_by_angle_def)
  have "\<forall>n\<in>set s. magnitude n = 0" using assms(2) by (simp add: s_def sort_by_angle_def)
  from foldl_mean_step32_zero_magnitudes[OF this, of "Fin 0"]
  obtain a where a: "foldl (mean_step32 (first_least (spans32 s))) (Fin 0, Fin 0) (enumerate 0 s) = (a, Fin 0)"
    "a = Fin 0 \<or> a = NaN" by blast
  have "fdiv rnd32 a (Fin 0) = NaN" using a(2) by (auto simp add: fdiv.simps)
  then have "circular_mean32 s (first_least (spans32 s)) = NaN"
    by (simp add: circular_mean32_def a(1))
  then show ?thesis
    using interpolate_angle_sorted32_eq[OF ne] by (simp add: interpolate_angle32_def s_def)
qed

section \<open>The claims\<close>

text \<open>
  The claims about values of the two means (C1, C2, C8, C9, C10) are settled in the
  binary32 embedding of the means; the claims about the structure of a sweep and of the
  loop of \<^verbatim>\<open>main\<close> (C3 to C7) in the embedding of the whole engine.
\<close>

text \<open>
  C1. In the arithmetic of the program, the circular mean of the two entries 89 degrees
  and -89 degrees, each with weight 1 and magnitude 1, is approximately \<open>\<pi>/2\<close> and not
  approximately 0. The two angles are the binary32 value of the C++ expression
  \<^verbatim>\<open>89 * PI / 180\<close>, which is \<open>6515193 / 2\<^sup>2\<^sup>2\<close>, and its negation. The mean that the second
  loop computes is \<open>6588397 / 2\<^sup>2\<^sup>2 = 1.57079625...\<close>, the largest binary32 number below
  \<^verbatim>\<open>PI/2\<close>, so that the last test subtracts nothing and this number is returned: it is
  within \<open>2\<^sup>-\<^sup>2\<^sup>3\<close> of \<^verbatim>\<open>PI/2\<close> and farther than \<open>3/2\<close> from 0.
\<close>

theorem C1_seam_mean_binary32:
  "to_float (fdiv rnd64 (fmul rnd64 (Fin 89) (Fin PI_double)) (Fin 180)) = Fin (6515193 / 4194304)
   \<and> interpolate_angle32 [entry (6515193 / 4194304) 1 1, entry (- (6515193 / 4194304)) 1 1]
       = Inr (Fin (6588397 / 4194304))
   \<and> \<bar>6588397 / 4194304 - PI_double / 2\<bar> < 1 / 2 ^ 23
   \<and> 3 / 2 < \<bar>6588397 / 4194304 - (0::real)\<bar>"
proof -
  have s1: "fmul rnd64 (Fin 89) (Fin (884279719003555 / 281474976710656)) = Fin (4918805936957275 / 17592186044416)"
    unfolding fmul.simps rnd64_def
    by (rule round_fp_eqI[where e = "8" and q = "-44" and n = "4918805936957275"]) (simp_all add: pow2_def)
  have s2: "fdiv rnd64 (Fin (4918805936957275 / 17592186044416)) (Fin 180) = Fin (1748908777584809 / 1125899906842624)"
    proof -
      have "rnd64 ((4918805936957275 / 17592186044416) / 180) = Fin (1748908777584809 / 1125899906842624)"
        unfolding rnd64_def
        by (rule round_fp_eqI[where e = "0" and q = "-52" and n = "6995635110339236"]) (simp_all add: pow2_def)
      then show ?thesis by (simp add: fdiv.simps)
    qed
  have s3: "to_float (Fin (1748908777584809 / 1125899906842624)) = Fin (6515193 / 4194304)"
    unfolding to_float.simps rnd32_def
    by (rule round_fp_eqI[where e = "0" and q = "-23" and n = "13030386"]) (simp_all add: pow2_def)
  have s4: "fsub rnd32 (Fin (6515193 / 4194304)) (Fin (- (6515193 / 4194304))) = Fin (6515193 / 2097152)"
    unfolding fsub_def fneg.simps fadd.simps rnd32_def
    by (rule round_fp_eqI[where e = "1" and q = "-22" and n = "13030386"]) (simp_all add: pow2_def)
  have s5: "fadd rnd64 (Fin (- (6515193 / 4194304))) (Fin (884279719003555 / 281474976710656)) = Fin (447052518032803 / 281474976710656)"
    unfolding fadd.simps rnd64_def
    by (rule round_fp_eqI[where e = "0" and q = "-52" and n = "7152840288524848"]) (simp_all add: pow2_def)
  have s6: "fsub rnd64 (Fin (447052518032803 / 281474976710656)) (Fin (6515193 / 4194304)) = Fin (9825317062051 / 281474976710656)"
    unfolding fsub_def fneg.simps fadd.simps rnd64_def
    by (rule round_fp_eqI[where e = "-5" and q = "-57" and n = "5030562335770112"]) (simp_all add: pow2_def)
  have s7: "to_float (Fin (9825317062051 / 281474976710656)) = Fin (9370153 / 268435456)"
    unfolding to_float.simps rnd32_def
    by (rule round_fp_eqI[where e = "-5" and q = "-28" and n = "9370153"]) (simp_all add: pow2_def)
  have s8: "fmul rnd32 (Fin 1) (Fin 1) = Fin 1"
    unfolding fmul.simps rnd32_def
    by (rule round_fp_eqI[where e = "0" and q = "-23" and n = "8388608"]) (simp_all add: pow2_def)
  have s9: "fmul rnd64 (Fin (447052518032803 / 281474976710656)) (Fin 1) = Fin (447052518032803 / 281474976710656)"
    unfolding fmul.simps rnd64_def
    by (rule round_fp_eqI[where e = "0" and q = "-52" and n = "7152840288524848"]) (simp_all add: pow2_def)
  have s10: "fadd rnd64 (Fin 0) (Fin (447052518032803 / 281474976710656)) = Fin (447052518032803 / 281474976710656)"
    unfolding fadd.simps rnd64_def
    by (rule round_fp_eqI[where e = "0" and q = "-52" and n = "7152840288524848"]) (simp_all add: pow2_def)
  have s11: "to_float (Fin (447052518032803 / 281474976710656)) = Fin (13323203 / 8388608)"
    unfolding to_float.simps rnd32_def
    by (rule round_fp_eqI[where e = "0" and q = "-23" and n = "13323203"]) (simp_all add: pow2_def)
  have s12: "fadd rnd32 (Fin 0) (Fin 1) = Fin 1"
    unfolding fadd.simps rnd32_def
    by (rule round_fp_eqI[where e = "0" and q = "-23" and n = "8388608"]) (simp_all add: pow2_def)
  have s13: "fmul rnd32 (Fin (6515193 / 4194304)) (Fin 1) = Fin (6515193 / 4194304)"
    unfolding fmul.simps rnd32_def
    by (rule round_fp_eqI[where e = "0" and q = "-23" and n = "13030386"]) (simp_all add: pow2_def)
  have s14: "fadd rnd32 (Fin (13323203 / 8388608)) (Fin (6515193 / 4194304)) = Fin (6588397 / 2097152)"
    unfolding fadd.simps rnd32_def
    by (rule round_fp_eqI[where e = "1" and q = "-22" and n = "13176794"]) (simp_all add: pow2_def)
  have s15: "fadd rnd32 (Fin 1) (Fin 1) = Fin 2"
    unfolding fadd.simps rnd32_def
    by (rule round_fp_eqI[where e = "1" and q = "-22" and n = "8388608"]) (simp_all add: pow2_def)
  have s16: "fdiv rnd32 (Fin (6588397 / 2097152)) (Fin 2) = Fin (6588397 / 4194304)"
    proof -
      have "rnd32 ((6588397 / 2097152) / 2) = Fin (6588397 / 4194304)"
        unfolding rnd32_def
        by (rule round_fp_eqI[where e = "0" and q = "-23" and n = "13176794"]) (simp_all add: pow2_def)
      then show ?thesis by (simp add: fdiv.simps)
    qed
  have s17: "fdiv rnd64 (Fin (884279719003555 / 281474976710656)) (Fin 2) = Fin (884279719003555 / 562949953421312)"
    proof -
      have "rnd64 ((884279719003555 / 281474976710656) / 2) = Fin (884279719003555 / 562949953421312)"
        unfolding rnd64_def
        by (rule round_fp_eqI[where e = "0" and q = "-52" and n = "7074237752028440"]) (simp_all add: pow2_def)
      then show ?thesis by (simp add: fdiv.simps)
    qed
  have deg: "to_float (fdiv rnd64 (fmul rnd64 (Fin 89) (Fin PI_double)) (Fin 180))
      = Fin (6515193 / 4194304)"
    by (simp add: PI_double_def s1 s2 s3)
  have mean: "interpolate_angle32 [entry (6515193 / 4194304) 1 1, entry (- (6515193 / 4194304)) 1 1]
      = Inr (Fin (6588397 / 4194304))"
    by (simp add: interpolate_angle32_def interpolate_angle_sorted32_def sort_by_angle_def entry_def
        find_split32.simps angle_sums32.simps span_diff32_def add_angle32_def wrap_angle32_def fge_def
        PI_double_def
        s1 s2 s3 s4 s5 s6 s7 s8 s9 s10 s11 s12 s13 s14 s15 s16 s17)
  have near: "\<bar>6588397 / 4194304 - PI_double / 2\<bar> < 1 / 2 ^ 23"
    "3 / 2 < \<bar>6588397 / 4194304 - (0::real)\<bar>"
    by (simp_all add: PI_double_def)
  show ?thesis using deg mean near by simp
qed

text \<open>
  C2 fails on the code. On a flat region every candidate has the magnitude 0, so both
  sums of the second loop of \<^verbatim>\<open>interpolate_angle\<close> are 0 and the quotient \<open>0/0\<close> is a NaN,
  whatever the weights are; the test \<^verbatim>\<open>avgAngle >= PI/2\<close> is false for a NaN and the NaN is
  stored as the angle of the cell. A NaN is in no interval. In the map that the
  construction gives for a constant image of one row and two columns, the cell (0, 1) has
  the two candidates of magnitude 0 in the first sweep (in the exact model the division
  by zero is the error \<open>NonFinite\<close>). Lemma \<open>interpolate_angle32_zero_magnitudes\<close> is
  the general fact.
\<close>

theorem C2_flat_region_angle_nan:
  "qualified_neighbors 0 1 7 flat_grid flat_grid False = [px 0 0 0 0 0, px 0 1 0 0 0]
   \<and> interpolate_angle32 [(px 0 0 0 0 0)\<lparr>weight := w0\<rparr>, (px 0 1 0 0 0)\<lparr>weight := w1\<rparr>] = Inr NaN
   \<and> updateCell 0 1 7 flat_grid flat_grid gray False = Inl NonFinite"
proof -
  have q: "qualified_neighbors 0 1 7 flat_grid flat_grid False = [px 0 0 0 0 0, px 0 1 0 0 0]"
    by (simp add: flat_grid_def grid_eval)
  have nan: "interpolate_angle32 [(px 0 0 0 0 0)\<lparr>weight := w0\<rparr>, (px 0 1 0 0 0)\<lparr>weight := w1\<rparr>]
      = Inr NaN"
    by (rule interpolate_angle32_zero_magnitudes) (simp_all add: px_def)
  have u: "updateCell 0 1 7 flat_grid flat_grid gray False = Inl NonFinite"
    by (rule updateCell_zero_magnitudes) (simp_all add: q, simp_all add: flat_grid_def px_def)
  show ?thesis using q nan u by simp
qed

text \<open>
  C3 fails on the code. On a flat region (two neighbouring cells of one cluster, both of
  magnitude 0, as the construction gives for a constant image) the candidate list has two
  members and the circular mean divides by the sum of \<open>weight * magnitude\<close>, which is 0:
  the angle computed is not a number.
\<close>

theorem C3_flat_region_undefined:
  "construct_pixel_map 1 2 (\<lambda>r c. 0) (\<lambda>r c. 0) (\<lambda>r c. 0) [ [5, 5] ] = Inr flat_grid
   \<and> length (qualified_neighbors 0 0 7 flat_grid flat_grid False) = 2
   \<and> updateCell 0 0 7 flat_grid flat_grid gray False = Inl NonFinite
   \<and> main_loop 0 1 1 flat_grid gray = Inl NonFinite"
proof -
  have q: "qualified_neighbors 0 0 7 flat_grid flat_grid False = [px 0 0 0 0 0, px 0 1 0 0 0]"
    by (simp add: flat_grid_def grid_eval)
  have u: "updateCell 0 0 7 flat_grid flat_grid gray False = Inl NonFinite"
    by (rule updateCell_zero_magnitudes) (simp_all add: q, simp_all add: flat_grid_def px_def)
  have "iterate 7 flat_grid gray False = Inl NonFinite"
    using u by (simp add: iterate_def Let_def flat_grid_def upto.simps)
  then have "main_loop 0 1 1 flat_grid gray = Inl NonFinite"
    by (subst main_loop.simps) simp
  moreover have "construct_pixel_map 1 2 (\<lambda>r c. 0) (\<lambda>r c. 0) (\<lambda>r c. 0) [ [5, 5] ] = Inr flat_grid"
    by (simp add: construct_pixel_map_def Let_def upto.simps remap_cluster_def cv_magnitude_def
        flat_grid_def px_def)
  ultimately show ?thesis using q u by simp
qed

text \<open>
  C4, as amended. With the gate on, the cell \<open>(r, c)\<close> after a sweep is the one that
  \<^verbatim>\<open>updateCell\<close> computes from the map as it was when the sweep began, and its candidates are
  exactly the cells of the clipped window with the cluster of the centre whose magnitude in
  that map is at least the magnitude of the centre in that map. The magnitudes compared are
  those of the copy made at the start of the current sweep, which earlier sweeps have
  overwritten; they are the magnitudes of the construction in the first sweep only.
\<close>

theorem C4_gate_uses_sweep_snapshot:
  assumes "iterate k pixel_map color_image False = Inr pixel_map'"
    and "rect pixel_map" and "in_range pixel_map r c"
  shows "(\<exists>q. updateCell r c k pixel_map pixel_map color_image False = Inr q
            \<and> at_px pixel_map' r c = at_px q r c)
     \<and> qualified_neighbors r c k pixel_map pixel_map False =
         map (\<lambda>rc. at_px pixel_map (fst rc) (snd rc))
           (filter (\<lambda>rc. cluster (at_px pixel_map (fst rc) (snd rc)) = cluster (at_px pixel_map r c)
                         \<and> magnitude (at_px pixel_map r c) \<le> magnitude (at_px pixel_map (fst rc) (snd rc)))
              (window r c k pixel_map))"
proof -
  have "new_pixel r c k pixel_map color_image False = Inr (at_px pixel_map' r c)"
    using assms by (rule iterate_cells(2))
  then have "\<exists>q. updateCell r c k pixel_map pixel_map color_image False = Inr q
            \<and> at_px pixel_map' r c = at_px q r c"
    by (auto simp: new_pixel_def split: sum.splits)
  moreover have "qualifies r c pixel_map pixel_map False =
      (\<lambda>rc. cluster (at_px pixel_map (fst rc) (snd rc)) = cluster (at_px pixel_map r c)
              \<and> magnitude (at_px pixel_map r c) \<le> magnitude (at_px pixel_map (fst rc) (snd rc)))"
    by (simp add: qualifies_def[abs_def])
  ultimately show ?thesis by (simp add: qualified_neighbors_eq)
qed

theorem C4_gate_uses_sweep_snapshot_witness:
  "iterate 7 iso_grid gray False = Inr iso_grid \<and> rect iso_grid \<and> in_range iso_grid 0 0
   \<and> qualified_neighbors 0 0 7 iso_grid iso_grid False =
         map (\<lambda>rc. at_px iso_grid (fst rc) (snd rc))
           (filter (\<lambda>rc. cluster (at_px iso_grid (fst rc) (snd rc)) = cluster (at_px iso_grid 0 0)
                         \<and> magnitude (at_px iso_grid 0 0) \<le> magnitude (at_px iso_grid (fst rc) (snd rc)))
              (window 0 0 7 iso_grid))"
proof -
  have h1: "iterate 7 iso_grid gray False = Inr iso_grid"
    by (simp add: iso_grid_def iterate_def updateCell_def grid_eval)
  have h2: "rect iso_grid" by (simp add: iso_grid_def rect_1xn)
  have h3: "in_range iso_grid 0 0" by (simp add: iso_grid_def in_range_def)
  show ?thesis
    using C4_gate_uses_sweep_snapshot[OF h1 h2 h3] h1 h2 h3 by blast
qed

text \<open>
  C4 as stated fails in the second sweep. In a row of five cells with clusters 0, 1, 0, 1, 0
  and magnitudes 2, 1, 1, 1, 100 the first gated sweep raises the magnitude of the cell
  \<open>(0, 2)\<close> from 1 above 2 and leaves the cell \<open>(0, 0)\<close> at 2. The cell \<open>(0, 0)\<close> is in the
  window of \<open>(0, 2)\<close>, has its cluster, and its magnitude at construction, 2, is at least
  that of \<open>(0, 2)\<close>, 1; yet it is not a candidate of \<open>(0, 2)\<close> in the second sweep.
\<close>

theorem C4_counterexample:
  "iterate 7 gate_grid gray False = Inr (result_map (iterate 7 gate_grid gray False))
   \<and> (0, 0) \<in> set (window 0 2 7 (result_map (iterate 7 gate_grid gray False)))
   \<and> cluster (at_px (result_map (iterate 7 gate_grid gray False)) 0 0)
       = cluster (at_px (result_map (iterate 7 gate_grid gray False)) 0 2)
   \<and> magnitude (at_px gate_grid 0 2) \<le> magnitude (at_px gate_grid 0 0)
   \<and> at_px (result_map (iterate 7 gate_grid gray False)) 0 0
       \<notin> set (qualified_neighbors 0 2 7 (result_map (iterate 7 gate_grid gray False))
                (result_map (iterate 7 gate_grid gray False)) False)"
proof -
  have re: "rect gate_grid" by (simp add: gate_grid_def rect_1xn)
  have "grid_pos gate_grid"
    by (rule grid_pos_rows[OF re]) (simp add: gate_grid_def px_def)
  then obtain pm1 where it: "iterate 7 gate_grid gray False = Inr pm1"
    using iterate_total_pos[OF re, of 7 gray False] by auto
  have res: "result_map (iterate 7 gate_grid gray False) = pm1" by (simp add: it result_map_def)
  note sw = gate_grid_sweep[OF it]
  have sh: "same_shape pm1 gate_grid" using it re by (rule iterate_cells(1))
  have "window 0 2 7 pm1 = window 0 2 7 gate_grid" using sh re by (rule same_shape_window)
  then have w: "(0, 0) \<in> set (window 0 2 7 pm1)"
    by (simp add: window_def gate_grid_def upto.simps signed_divide_int_def)
  have r0: "in_range gate_grid 0 0" and r2: "in_range gate_grid 0 2"
    by (simp_all add: gate_grid_def in_range_def)
  have c: "cluster (at_px pm1 0 0) = cluster (at_px pm1 0 2)"
    using iterate_cluster[OF it re r0] iterate_cluster[OF it re r2]
    by (simp add: gate_grid_def at_px_def px_def)
  have m: "magnitude (at_px gate_grid 0 2) \<le> magnitude (at_px gate_grid 0 0)"
    by (simp add: gate_grid_def at_px_def px_def)
  have "at_px pm1 0 0 \<notin> set (qualified_neighbors 0 2 7 pm1 pm1 False)"
  proof
    assume "at_px pm1 0 0 \<in> set (qualified_neighbors 0 2 7 pm1 pm1 False)"
    from in_qualified_neighbors[OF this] obtain rr cc where
      "at_px pm1 0 0 = at_px pm1 rr cc" "magnitude (at_px pm1 0 2) \<le> magnitude (at_px pm1 rr cc)"
      by auto
    then have "magnitude (at_px pm1 0 2) \<le> magnitude (at_px pm1 0 0)" by simp
    then show False using sw by (simp add: px_def)
  qed
  then show ?thesis using it w c m unfolding res by blast
qed

text \<open>
  C5. When the neighbour selection of a sweep gives exactly one candidate for a cell of the
  map (the cell itself), \<^verbatim>\<open>updateCell\<close> returns the map as it is, and the sweep leaves
  the angle and the magnitude of that cell as they were.
\<close>

theorem C5_single_candidate_noop:
  assumes "iterate k pixel_map color_image ignore_mag = Inr pixel_map'"
    and "rect pixel_map" and "in_range pixel_map r c"
    and "length (qualified_neighbors r c k pixel_map pixel_map ignore_mag) = 1"
  shows "updateCell r c k pixel_map pixel_map color_image ignore_mag = Inr pixel_map
     \<and> angle (at_px pixel_map' r c) = angle (at_px pixel_map r c)
     \<and> magnitude (at_px pixel_map' r c) = magnitude (at_px pixel_map r c)"
proof -
  have "length pixel_map \<noteq> 0" using assms(2) rect_nonempty by simp
  then have u: "updateCell r c k pixel_map pixel_map color_image ignore_mag = Inr pixel_map"
    using assms(4) by (simp add: updateCell_def)
  have "new_pixel r c k pixel_map color_image ignore_mag = Inr (at_px pixel_map' r c)"
    using assms(1,2,3) by (rule iterate_cells(2))
  then have "at_px pixel_map' r c = at_px pixel_map r c"
    unfolding new_pixel_eq[OF assms(2,3)] Let_def using assms(4) by simp
  then show ?thesis using u by simp
qed

theorem C5_single_candidate_noop_witness:
  "iterate 7 iso_grid gray False = Inr iso_grid
   \<and> rect iso_grid \<and> in_range iso_grid 0 1
   \<and> length (qualified_neighbors 0 1 7 iso_grid iso_grid False) = 1
   \<and> angle (at_px iso_grid 0 1) = 0 \<and> magnitude (at_px iso_grid 0 1) = 2"
proof -
  have h1: "iterate 7 iso_grid gray False = Inr iso_grid"
    by (simp add: iso_grid_def iterate_def updateCell_def grid_eval)
  have h2: "rect iso_grid" by (simp add: iso_grid_def rect_1xn)
  have h3: "in_range iso_grid 0 1" by (simp add: iso_grid_def in_range_def)
  have h4: "length (qualified_neighbors 0 1 7 iso_grid iso_grid False) = 1"
    by (simp add: iso_grid_def grid_eval)
  show ?thesis
    using C5_single_candidate_noop[OF h1 h2 h3 h4] h1 h2 h3 h4
    by (simp add: iso_grid_def at_px_def px_def)
qed



text \<open>
  C7. Two runs of the same sequence of sweeps (any window size, any flags) on maps of the
  same shape with the same cluster ids, which agree on every cell of the cluster \<open>cl\<close>
  (the pixel record and the colour at its position) and may differ in the angle, the
  magnitude and the colour of all other cells, give every cell of \<open>cl\<close> the same angle and
  the same magnitude. Each cell carries its own position, as the construction sets it.
\<close>

theorem C7_cluster_isolation:
  assumes "run_sweeps k flags pixel_map1 color_image1 = Inr pixel_map1'"
    and "run_sweeps k flags pixel_map2 color_image2 = Inr pixel_map2'"
    and "rect pixel_map2"
    and "agree_on cl pixel_map1 pixel_map2 color_image1 color_image2"
    and "in_range pixel_map2 r c" and "cluster (at_px pixel_map2 r c) = cl"
  shows "angle (at_px pixel_map1' r c) = angle (at_px pixel_map2' r c)
     \<and> magnitude (at_px pixel_map1' r c) = magnitude (at_px pixel_map2' r c)"
proof -
  have ag': "agree_on cl pixel_map1' pixel_map2' color_image1 color_image2"
    using run_sweeps_agree[OF assms(1,2,3,4)] by simp
  have sh: "same_shape pixel_map2' pixel_map2"
    using assms(2,3) by (rule run_sweeps_shape_cluster(1))
  have rc': "in_range pixel_map2' r c" using same_shape_in_range[OF sh assms(3)] assms(5) by simp
  have "cluster (at_px pixel_map2' r c) = cl"
    using run_sweeps_shape_cluster(2)[OF assms(2,3,5)] assms(6) by simp
  then have "at_px pixel_map1' r c = at_px pixel_map2' r c"
    using agree_onD(2)[OF ag' rc'] by simp
  then show ?thesis by simp
qed

theorem C7_cluster_isolation_witness:
  "\<exists>pixel_map1' pixel_map2'.
     run_sweeps 7 [False, True] left_grid gray = Inr pixel_map1'
     \<and> run_sweeps 7 [False, True] right_grid right_image = Inr pixel_map2'
     \<and> rect right_grid \<and> agree_on 0 left_grid right_grid gray right_image
     \<and> in_range right_grid 0 1 \<and> cluster (at_px right_grid 0 1) = 0
     \<and> angle (at_px pixel_map1' 0 1) = angle (at_px pixel_map2' 0 1)
     \<and> magnitude (at_px pixel_map1' 0 1) = magnitude (at_px pixel_map2' 0 1)"
proof -
  have re1: "rect left_grid" and re2: "rect right_grid"
    by (simp_all add: left_grid_def right_grid_def rect_1xn)
  have "grid_pos left_grid"
    by (rule grid_pos_rows[OF re1]) (simp add: left_grid_def px_def)
  then obtain pm1 where h1: "run_sweeps 7 [False, True] left_grid gray = Inr pm1"
    using run_sweeps_total[OF re1, of 7 "[False, True]" gray] by auto
  have "grid_pos right_grid"
    by (rule grid_pos_rows[OF re2]) (simp add: right_grid_def px_def)
  then obtain pm2 where h2: "run_sweeps 7 [False, True] right_grid right_image = Inr pm2"
    using run_sweeps_total[OF re2, of 7 "[False, True]" right_image] by auto
  have rng: "in_range right_grid r c \<longleftrightarrow> r = 0 \<and> (c = 0 \<or> c = 1 \<or> c = 2)" for r c
    by (auto simp: in_range_def right_grid_def)
  have sh: "same_shape left_grid right_grid"
    by (simp add: same_shape_def left_grid_def right_grid_def)
  have cell: "cluster (at_px left_grid r c) = cluster (at_px right_grid r c)
      \<and> (cluster (at_px right_grid r c) = 0 \<longrightarrow>
            at_px left_grid r c = at_px right_grid r c \<and>
            position (at_px right_grid r c) = (r, c) \<and> gray r c = right_image r c)"
    if "in_range right_grid r c" for r c
  proof -
    from that consider "r = 0" "c = 0" | "r = 0" "c = 1" | "r = 0" "c = 2" using rng by blast
    then show ?thesis
      by cases (simp_all add: left_grid_def right_grid_def at_px_def px_def gray_def right_image_def)
  qed
  have h4: "agree_on 0 left_grid right_grid gray right_image"
    using sh cell by (rule agree_onI)
  have h5: "in_range right_grid 0 1" by (simp add: rng)
  have h6: "cluster (at_px right_grid 0 1) = 0" by (simp add: right_grid_def at_px_def px_def)
  show ?thesis
    using C7_cluster_isolation[OF h1 h2 re2 h4 h5 h6] h1 h2 re2 h4 h5 h6 by blast
qed

text \<open>
  C8, as amended. The first loop of \<^verbatim>\<open>interpolate_angle\<close> compares rounded numbers: for
  index 0 the binary32 difference of the last and the first angle, for an index \<open>j > 0\<close>
  predecessor \<open>+ PI -\<close> current, computed in binary64 and rounded to binary32 (the list
  \<open>spans32\<close>; a span is \<^verbatim>\<open>PI\<close> minus the gap that ends at the index). The index chosen is
  the first index of a least rounded span, and exactly the entries before it are added
  shifted by \<^verbatim>\<open>PI\<close> (\<open>circular_mean32\<close>). It is the index right after the largest gap on the
  circle of circumference \<^verbatim>\<open>PI\<close> whenever that gap exceeds every other gap by at least
  \<open>2\<^sup>-\<^sup>1\<^sup>9\<close> (angles of absolute value at most 2); for gaps that are closer the rounded spans
  can be equal and the first of them wins. Lemma \<open>interpolate_angle_sorted32_eq\<close> is the
  first part for every order that \<^verbatim>\<open>std::sort\<close> may give to equal angles.
\<close>

theorem C8_split_is_first_least_span:
  assumes "ns \<noteq> []"
  shows "interpolate_angle32 ns
       = Inr (circular_mean32 (sort_by_angle ns) (first_least (spans32 (sort_by_angle ns))))
     \<and> ((\<forall>n\<in>set ns. \<bar>angle n\<bar> \<le> 2) \<and> k < length ns
          \<and> (\<forall>j<length ns. j \<noteq> k \<longrightarrow>
                circle_gap64 (map angle (sort_by_angle ns)) j + 1 / 2 ^ 19
                  \<le> circle_gap64 (map angle (sort_by_angle ns)) k)
        \<longrightarrow> first_least (spans32 (sort_by_angle ns)) = k)"
proof -
  define s where "s = sort_by_angle ns"
  have len: "length s = length ns" by (simp add: s_def sort_by_angle_def)
  have ne: "s \<noteq> []" using assms len by (cases s) auto
  have set: "set s = set ns" by (simp add: s_def sort_by_angle_def)
  have "interpolate_angle32 ns = Inr (circular_mean32 s (first_least (spans32 s)))"
    using interpolate_angle_sorted32_eq[OF ne] by (simp add: interpolate_angle32_def s_def)
  moreover have "first_least (spans32 s) = k"
    if "\<forall>n\<in>set ns. \<bar>angle n\<bar> \<le> 2" and "k < length ns"
      and "\<forall>j<length ns. j \<noteq> k \<longrightarrow>
             circle_gap64 (map angle s) j + 1 / 2 ^ 19 \<le> circle_gap64 (map angle s) k"
    using that by (intro first_least_separated) (simp_all add: set len)
  ultimately show ?thesis unfolding s_def by blast
qed

text \<open>The entries 89 and -89 degrees of C1: the largest gap, of 178 degrees, ends at index 1
  of the sorted vector, and index 1 is chosen.\<close>

theorem C8_split_is_first_least_span_witness:
  "[entry (6515193 / 4194304) 1 1, entry (- (6515193 / 4194304)) 1 1] \<noteq> []
   \<and> \<bar>angle (entry (6515193 / 4194304) 1 1)\<bar> \<le> 2
   \<and> \<bar>angle (entry (- (6515193 / 4194304)) 1 1)\<bar> \<le> 2
   \<and> (1::nat) < length [entry (6515193 / 4194304) 1 1, entry (- (6515193 / 4194304)) 1 1]
   \<and> circle_gap64 (map angle (sort_by_angle [entry (6515193 / 4194304) 1 1, entry (- (6515193 / 4194304)) 1 1])) 0 + 1 / 2 ^ 19
       \<le> circle_gap64 (map angle (sort_by_angle [entry (6515193 / 4194304) 1 1, entry (- (6515193 / 4194304)) 1 1])) 1
   \<and> interpolate_angle32 [entry (6515193 / 4194304) 1 1, entry (- (6515193 / 4194304)) 1 1]
       = Inr (circular_mean32 (sort_by_angle [entry (6515193 / 4194304) 1 1, entry (- (6515193 / 4194304)) 1 1]) 1)
   \<and> first_least (spans32 (sort_by_angle [entry (6515193 / 4194304) 1 1, entry (- (6515193 / 4194304)) 1 1])) = 1"
proof -
  let ?ns = "[entry (6515193 / 4194304) 1 1, entry (- (6515193 / 4194304)) 1 1]"
  have s: "sort_by_angle ?ns = [entry (- (6515193 / 4194304)) 1 1, entry (6515193 / 4194304) 1 1]"
    by (simp add: sort_by_angle_def entry_def)
  have gap: "circle_gap64 (map angle (sort_by_angle ?ns)) 0 + 1 / 2 ^ 19
        \<le> circle_gap64 (map angle (sort_by_angle ?ns)) 1"
    unfolding s by (simp add: circle_gap64_def entry_def PI_double_def)
  then have sep: "\<forall>j<length ?ns. j \<noteq> 1 \<longrightarrow>
      circle_gap64 (map angle (sort_by_angle ?ns)) j + 1 / 2 ^ 19
        \<le> circle_gap64 (map angle (sort_by_angle ?ns)) 1"
    by (simp add: less_Suc_eq)
  have b: "\<bar>angle (entry (6515193 / 4194304) 1 1)\<bar> \<le> 2"
    "\<bar>angle (entry (- (6515193 / 4194304)) 1 1)\<bar> \<le> 2" by (simp_all add: entry_def)
  then have b': "\<forall>n\<in>set ?ns. \<bar>angle n\<bar> \<le> 2" by simp
  have "?ns \<noteq> []" by simp
  from C8_split_is_first_least_span[OF this, of 1] b b' gap sep
  show ?thesis by simp
qed

text \<open>
  C8 as stated fails. For the sorted angles \<open>-1.36523...\<close> and \<open>0.20556...\<close> (binary32
  numbers) the gap that ends at index 1, \<open>1.5707963407\<close>, is larger than the wraparound
  gap that ends at index 0, \<open>1.5707963129\<close>, but both spans round to the same binary32
  number, the test \<^verbatim>\<open>diff < minDiff\<close> fails and the code keeps index 0: it returns
  \<open>-0.5798...\<close>, where the mean with the split after the largest gap is \<open>0.9909...\<close>.
\<close>

theorem C8_counterexample:
  "find_split32 [entry (- (11452431 / 8388608)) 1 1, entry (6897455 / 33554432) 1 1] 1
       (fsub rnd32 (Fin (angle (last [entry (- (11452431 / 8388608)) 1 1, entry (6897455 / 33554432) 1 1])))
                   (Fin (angle ([entry (- (11452431 / 8388608)) 1 1, entry (6897455 / 33554432) 1 1] ! 0)))) 0 = 0
   \<and> circle_gap64 (map angle [entry (- (11452431 / 8388608)) 1 1, entry (6897455 / 33554432) 1 1]) 0
       < circle_gap64 (map angle [entry (- (11452431 / 8388608)) 1 1, entry (6897455 / 33554432) 1 1]) 1
   \<and> interpolate_angle32 [entry (- (11452431 / 8388608)) 1 1, entry (6897455 / 33554432) 1 1] = Inr (Fin (- (9728067 / 16777216)))
   \<and> circular_mean32 [entry (- (11452431 / 8388608)) 1 1, entry (6897455 / 33554432) 1 1] 1 = Fin (8312761 / 8388608)"
proof -
  have s1: "fsub rnd32 (Fin (6897455 / 33554432)) (Fin (- (11452431 / 8388608))) = Fin (13176795 / 8388608)"
    unfolding fsub_def fneg.simps fadd.simps rnd32_def
    by (rule round_fp_eqI[where e = "0" and q = "-23" and n = "13176795"]) (simp_all add: pow2_def)
  have s2: "fadd rnd64 (Fin (- (11452431 / 8388608))) (Fin (884279719003555 / 281474976710656)) = Fin (499999901779363 / 281474976710656)"
    unfolding fadd.simps rnd64_def
    by (rule round_fp_eqI[where e = "0" and q = "-52" and n = "7999998428469808"]) (simp_all add: pow2_def)
  have s3: "fsub rnd64 (Fin (499999901779363 / 281474976710656)) (Fin (6897455 / 33554432)) = Fin (442139855586723 / 281474976710656)"
    unfolding fsub_def fneg.simps fadd.simps rnd64_def
    by (rule round_fp_eqI[where e = "0" and q = "-52" and n = "7074237689387568"]) (simp_all add: pow2_def)
  have s4: "to_float (Fin (442139855586723 / 281474976710656)) = Fin (13176795 / 8388608)"
    unfolding to_float.simps rnd32_def
    by (rule round_fp_eqI[where e = "0" and q = "-23" and n = "13176795"]) (simp_all add: pow2_def)
  have s5: "fmul rnd32 (Fin 1) (Fin 1) = Fin 1"
    unfolding fmul.simps rnd32_def
    by (rule round_fp_eqI[where e = "0" and q = "-23" and n = "8388608"]) (simp_all add: pow2_def)
  have s6: "fmul rnd32 (Fin (- (11452431 / 8388608))) (Fin 1) = Fin (- (11452431 / 8388608))"
    unfolding fmul.simps rnd32_def
    by (rule round_fp_eqI[where e = "0" and q = "-23" and n = "-11452431"]) (simp_all add: pow2_def)
  have s7: "fadd rnd32 (Fin 0) (Fin (- (11452431 / 8388608))) = Fin (- (11452431 / 8388608))"
    unfolding fadd.simps rnd32_def
    by (rule round_fp_eqI[where e = "0" and q = "-23" and n = "-11452431"]) (simp_all add: pow2_def)
  have s8: "fadd rnd32 (Fin 0) (Fin 1) = Fin 1"
    unfolding fadd.simps rnd32_def
    by (rule round_fp_eqI[where e = "0" and q = "-23" and n = "8388608"]) (simp_all add: pow2_def)
  have s9: "fmul rnd32 (Fin (6897455 / 33554432)) (Fin 1) = Fin (6897455 / 33554432)"
    unfolding fmul.simps rnd32_def
    by (rule round_fp_eqI[where e = "-3" and q = "-26" and n = "13794910"]) (simp_all add: pow2_def)
  have s10: "fadd rnd32 (Fin (- (11452431 / 8388608))) (Fin (6897455 / 33554432)) = Fin (- (9728067 / 8388608))"
    unfolding fadd.simps rnd32_def
    by (rule round_fp_eqI[where e = "0" and q = "-23" and n = "-9728067"]) (simp_all add: pow2_def)
  have s11: "fadd rnd32 (Fin 1) (Fin 1) = Fin 2"
    unfolding fadd.simps rnd32_def
    by (rule round_fp_eqI[where e = "1" and q = "-22" and n = "8388608"]) (simp_all add: pow2_def)
  have s12: "fdiv rnd32 (Fin (- (9728067 / 8388608))) (Fin 2) = Fin (- (9728067 / 16777216))"
    proof -
      have "rnd32 ((- (9728067 / 8388608)) / 2) = Fin (- (9728067 / 16777216))"
        unfolding rnd32_def
        by (rule round_fp_eqI[where e = "-1" and q = "-24" and n = "-9728067"]) (simp_all add: pow2_def)
      then show ?thesis by (simp add: fdiv.simps)
    qed
  have s13: "fdiv rnd64 (Fin (884279719003555 / 281474976710656)) (Fin 2) = Fin (884279719003555 / 562949953421312)"
    proof -
      have "rnd64 ((884279719003555 / 281474976710656) / 2) = Fin (884279719003555 / 562949953421312)"
        unfolding rnd64_def
        by (rule round_fp_eqI[where e = "0" and q = "-52" and n = "7074237752028440"]) (simp_all add: pow2_def)
      then show ?thesis by (simp add: fdiv.simps)
    qed
  have s14: "fmul rnd64 (Fin (499999901779363 / 281474976710656)) (Fin 1) = Fin (499999901779363 / 281474976710656)"
    unfolding fmul.simps rnd64_def
    by (rule round_fp_eqI[where e = "0" and q = "-52" and n = "7999998428469808"]) (simp_all add: pow2_def)
  have s15: "fadd rnd64 (Fin 0) (Fin (499999901779363 / 281474976710656)) = Fin (499999901779363 / 281474976710656)"
    unfolding fadd.simps rnd64_def
    by (rule round_fp_eqI[where e = "0" and q = "-52" and n = "7999998428469808"]) (simp_all add: pow2_def)
  have s16: "to_float (Fin (499999901779363 / 281474976710656)) = Fin (7450579 / 4194304)"
    unfolding to_float.simps rnd32_def
    by (rule round_fp_eqI[where e = "0" and q = "-23" and n = "14901158"]) (simp_all add: pow2_def)
  have s17: "fadd rnd32 (Fin (7450579 / 4194304)) (Fin (6897455 / 33554432)) = Fin (8312761 / 4194304)"
    unfolding fadd.simps rnd32_def
    by (rule round_fp_eqI[where e = "0" and q = "-23" and n = "16625522"]) (simp_all add: pow2_def)
  have s18: "fdiv rnd32 (Fin (8312761 / 4194304)) (Fin 2) = Fin (8312761 / 8388608)"
    proof -
      have "rnd32 ((8312761 / 4194304) / 2) = Fin (8312761 / 8388608)"
        unfolding rnd32_def
        by (rule round_fp_eqI[where e = "-1" and q = "-24" and n = "16625522"]) (simp_all add: pow2_def)
      then show ?thesis by (simp add: fdiv.simps)
    qed
  have split: "find_split32 [entry (- (11452431 / 8388608)) 1 1, entry (6897455 / 33554432) 1 1] 1
       (fsub rnd32 (Fin (angle (last [entry (- (11452431 / 8388608)) 1 1, entry (6897455 / 33554432) 1 1])))
                   (Fin (angle ([entry (- (11452431 / 8388608)) 1 1, entry (6897455 / 33554432) 1 1] ! 0)))) 0 = 0"
    by (simp add: entry_def find_split32.simps span_diff32_def PI_double_def s1 s2 s3 s4 s5 s6 s7 s8 s9 s10 s11 s12 s13 s14 s15 s16 s17 s18)
  have gaps: "circle_gap64 (map angle [entry (- (11452431 / 8388608)) 1 1, entry (6897455 / 33554432) 1 1]) 0
       < circle_gap64 (map angle [entry (- (11452431 / 8388608)) 1 1, entry (6897455 / 33554432) 1 1]) 1"
    by (simp add: circle_gap64_def entry_def PI_double_def)
  have mean: "interpolate_angle32 [entry (- (11452431 / 8388608)) 1 1, entry (6897455 / 33554432) 1 1] = Inr (Fin (- (9728067 / 16777216)))"
    by (simp add: interpolate_angle32_def interpolate_angle_sorted32_def sort_by_angle_def entry_def
        find_split32.simps angle_sums32.simps span_diff32_def add_angle32_def wrap_angle32_def fge_def
        PI_double_def
        s1 s2 s3 s4 s5 s6 s7 s8 s9 s10 s11 s12 s13 s14 s15 s16 s17 s18)
  have other: "circular_mean32 [entry (- (11452431 / 8388608)) 1 1, entry (6897455 / 33554432) 1 1] 1 = Fin (8312761 / 8388608)"
    by (simp add: circular_mean32_def mean_step32_def add_angle32_def wrap_angle32_def fge_def
        entry_def PI_double_def s1 s2 s3 s4 s5 s6 s7 s8 s9 s10 s11 s12 s13 s14 s15 s16 s17 s18)
  show ?thesis using split gaps mean other by simp
qed

text \<open>
  C9, as amended. For a single entry \<open>(\<theta>, w)\<close> the circular mean returns \<open>\<theta>\<close> up to
  rounding. The code computes \<^verbatim>\<open>float\<close> of \<open>\<theta> * mw / mw\<close> for the effective weight
  \<open>mw = weight * magnitude\<close>, each operation rounded: the mean \<open>a\<close> before the last test is
  within \<open>2\<^sup>-\<^sup>2\<^sup>1 * \<bar>\<theta>\<bar>\<close> of \<open>\<theta>\<close> (for \<open>\<theta> = 0\<close> or \<open>2\<^sup>-\<^sup>1\<^sup>0\<^sup>0 \<le> \<bar>\<theta>\<bar> \<le> 2\<close> and an
  effective weight between \<open>2\<^sup>-\<^sup>2\<^sup>0\<close> and \<open>2\<^sup>2\<^sup>0\<close>), it is returned as it is when it is below
  \<^verbatim>\<open>PI/2\<close>, and \<^verbatim>\<open>PI\<close> is subtracted from it otherwise. With weight 1 and magnitude 1 every
  binary32 angle below \<^verbatim>\<open>PI/2\<close> is returned unchanged; no binary32 number equals
  \<open>\<pi>/2\<close>.
\<close>

theorem C9_single_entry_rounded:
  assumes "\<theta> = 0 \<or> 1 / 2 ^ 100 \<le> \<bar>\<theta>\<bar>" and "\<bar>\<theta>\<bar> \<le> 2"
    and "1 / 2 ^ 20 \<le> w * m" and "w * m \<le> 2 ^ 20"
  shows "(\<exists>a. \<bar>a - \<theta>\<bar> \<le> \<bar>\<theta>\<bar> / 2 ^ 21
            \<and> interpolate_angle32 [entry \<theta> m w]
                = Inr (if a < PI_double / 2 then Fin a
                       else to_float (fsub rnd64 (Fin a) (Fin PI_double))))
     \<and> (rnd32 \<theta> = Fin \<theta> \<and> \<theta> < PI_double / 2 \<longrightarrow> interpolate_angle32 [entry \<theta> 1 1] = Inr (Fin \<theta>))"
proof -
  from single_entry_mean_error[OF assms]
  obtain a where a: "fdiv rnd32
        (fadd rnd32 (Fin 0) (fmul rnd32 (Fin \<theta>) (fmul rnd32 (Fin w) (Fin m))))
        (fadd rnd32 (Fin 0) (fmul rnd32 (Fin w) (Fin m))) = Fin a"
    and ae: "\<bar>a - \<theta>\<bar> \<le> \<bar>\<theta>\<bar> / 2 ^ 21" by blast
  have "interpolate_angle32 [entry \<theta> m w]
      = Inr (if a < PI_double / 2 then Fin a else to_float (fsub rnd64 (Fin a) (Fin PI_double)))"
    using a by (simp add: interpolate_angle32_single entry_def wrap_angle32_Fin)
  with ae have first: "\<exists>a. \<bar>a - \<theta>\<bar> \<le> \<bar>\<theta>\<bar> / 2 ^ 21
            \<and> interpolate_angle32 [entry \<theta> m w]
                = Inr (if a < PI_double / 2 then Fin a
                       else to_float (fsub rnd64 (Fin a) (Fin PI_double)))" by blast
  have one: "rnd32 1 = Fin 1"
    unfolding rnd32_def
    by (rule round_fp_eqI[where e = 0 and q = "- 23" and n = 8388608]) (simp_all add: pow2_def)
  have "interpolate_angle32 [entry \<theta> 1 1] = Inr (Fin \<theta>)"
    if "rnd32 \<theta> = Fin \<theta>" and "\<theta> < PI_double / 2"
    using that one
    by (simp add: interpolate_angle32_single entry_def wrap_angle32_Fin fmul.simps fadd.simps
        fdiv.simps)
  with first show ?thesis by blast
qed

theorem C9_single_entry_rounded_witness:
  "((- (14661411 / 16777216) :: real) = 0 \<or> 1 / 2 ^ 100 \<le> \<bar>- (14661411 / 16777216) :: real\<bar>)
   \<and> \<bar>- (14661411 / 16777216) :: real\<bar> \<le> 2
   \<and> (1::real) / 2 ^ 20 \<le> (2652673 / 536870912) * (10154441 / 4096)
   \<and> (2652673 / 536870912) * (10154441 / 4096) \<le> (2::real) ^ 20
   \<and> rnd32 (- (14661411 / 16777216)) = Fin (- (14661411 / 16777216))
   \<and> - (14661411 / 16777216) < PI_double / 2
   \<and> (\<exists>a. \<bar>a - (- (14661411 / 16777216))\<bar> \<le> \<bar>- (14661411 / 16777216) :: real\<bar> / 2 ^ 21
          \<and> interpolate_angle32 [entry (- (14661411 / 16777216)) (10154441 / 4096) (2652673 / 536870912)]
              = Inr (if a < PI_double / 2 then Fin a
                     else to_float (fsub rnd64 (Fin a) (Fin PI_double))))
   \<and> interpolate_angle32 [entry (- (14661411 / 16777216)) 1 1] = Inr (Fin (- (14661411 / 16777216)))"
proof -
  have rs: "rnd32 (- (14661411 / 16777216)) = Fin (- (14661411 / 16777216))"
    unfolding rnd32_def
    by (rule round_fp_eqI[where e = "-1" and q = "-24" and n = "-14661411"]) (simp_all add: pow2_def)
  have lt: "- (14661411 / 16777216) < PI_double / 2" by (simp add: PI_double_def)
  have "((- (14661411 / 16777216) :: real) = 0 \<or> 1 / 2 ^ 100 \<le> \<bar>- (14661411 / 16777216) :: real\<bar>)"
    "\<bar>- (14661411 / 16777216) :: real\<bar> \<le> 2"
    "(1::real) / 2 ^ 20 \<le> (2652673 / 536870912) * (10154441 / 4096)"
    "(2652673 / 536870912) * (10154441 / 4096) \<le> (2::real) ^ 20"
    by simp_all
  from C9_single_entry_rounded[OF this] rs lt
  show ?thesis by simp
qed

text \<open>
  C9 as stated fails. The angle \<open>-0.87388819...\<close>, inside \<open>(- \<pi>/2, \<pi>/2]\<close>, with weight
  \<open>0.0049409885\<close> and magnitude \<open>2479.1116\<close> (binary32 numbers, positive effective weight)
  comes back as \<open>-0.87388813...\<close>, the binary32 number next to it.
\<close>

theorem C9_counterexample:
  "- PI / 2 < - (14661411 / 16777216) \<and> - (14661411 / 16777216) \<le> PI / 2
   \<and> 0 < (2652673 / 536870912) * (10154441 / 4096 :: real)
   \<and> interpolate_angle32 [entry (- (14661411 / 16777216)) (10154441 / 4096) (2652673 / 536870912)] = Inr (Fin (- (7330705 / 8388608)))
   \<and> (- (7330705 / 8388608)) \<noteq> (- (14661411 / 16777216) :: real)"
proof -
  have s1: "fsub rnd32 (Fin (- (14661411 / 16777216))) (Fin (- (14661411 / 16777216))) = Fin 0"
    by (simp add: fsub_def fneg.simps fadd.simps rnd32_def round_fp_def)
  have s2: "fmul rnd32 (Fin (2652673 / 536870912)) (Fin (10154441 / 4096)) = Fin (6422141 / 524288)"
    unfolding fmul.simps rnd32_def
    by (rule round_fp_eqI[where e = "3" and q = "-20" and n = "12844282"]) (simp_all add: pow2_def)
  have s3: "fmul rnd32 (Fin (- (14661411 / 16777216))) (Fin (6422141 / 524288)) = Fin (- (5612233 / 524288))"
    unfolding fmul.simps rnd32_def
    by (rule round_fp_eqI[where e = "3" and q = "-20" and n = "-11224466"]) (simp_all add: pow2_def)
  have s4: "fadd rnd32 (Fin 0) (Fin (- (5612233 / 524288))) = Fin (- (5612233 / 524288))"
    unfolding fadd.simps rnd32_def
    by (rule round_fp_eqI[where e = "3" and q = "-20" and n = "-11224466"]) (simp_all add: pow2_def)
  have s5: "fadd rnd32 (Fin 0) (Fin (6422141 / 524288)) = Fin (6422141 / 524288)"
    unfolding fadd.simps rnd32_def
    by (rule round_fp_eqI[where e = "3" and q = "-20" and n = "12844282"]) (simp_all add: pow2_def)
  have s6: "fdiv rnd32 (Fin (- (5612233 / 524288))) (Fin (6422141 / 524288)) = Fin (- (7330705 / 8388608))"
    proof -
      have "rnd32 ((- (5612233 / 524288)) / (6422141 / 524288)) = Fin (- (7330705 / 8388608))"
        unfolding rnd32_def
        by (rule round_fp_eqI[where e = "-1" and q = "-24" and n = "-14661410"]) (simp_all add: pow2_def)
      then show ?thesis by (simp add: fdiv.simps)
    qed
  have s7: "fdiv rnd64 (Fin (884279719003555 / 281474976710656)) (Fin 2) = Fin (884279719003555 / 562949953421312)"
    proof -
      have "rnd64 ((884279719003555 / 281474976710656) / 2) = Fin (884279719003555 / 562949953421312)"
        unfolding rnd64_def
        by (rule round_fp_eqI[where e = "0" and q = "-52" and n = "7074237752028440"]) (simp_all add: pow2_def)
      then show ?thesis by (simp add: fdiv.simps)
    qed
  have mean: "interpolate_angle32 [entry (- (14661411 / 16777216)) (10154441 / 4096) (2652673 / 536870912)] = Inr (Fin (- (7330705 / 8388608)))"
    by (simp add: interpolate_angle32_def interpolate_angle_sorted32_def sort_by_angle_def entry_def
        find_split32.simps angle_sums32.simps span_diff32_def add_angle32_def wrap_angle32_def fge_def
        PI_double_def
        s1 s2 s3 s4 s5 s6 s7)
  have "- PI / 2 < - (14661411 / 16777216)" "- (14661411 / 16777216) \<le> PI / 2"
    using pi_ge_two by (simp_all add: PI_def)
  then show ?thesis using mean by simp
qed

text \<open>
  C10, as amended. In a gated sweep every candidate of a cell has a snapshot magnitude
  that is at least the cell's own, \<open>m0\<close>, and the new magnitude is the binary32 weighted
  mean of the candidates' magnitudes, which is at least \<open>m0\<close> up to the rounding of the
  sums and of the quotient: for \<open>n\<close> candidates it is at least
  \<open>m0 * (1 - (2 * n + 2) / 2\<^sup>2\<^sup>4)\<close>. This is proved for every choice of the weights \<open>wt\<close>
  that are zero or at least \<open>2\<^sup>-\<^sup>6\<^sup>0\<close> and at most 1, not all zero, and magnitudes between
  \<open>2\<^sup>-\<^sup>6\<^sup>0\<close> and \<open>2\<^sup>6\<^sup>0\<close> (no underflow and no overflow), and at most 1000 candidates (a
  window of 7 has at most 49).
\<close>

theorem C10_gated_magnitude_rounded:
  assumes "\<forall>n\<in>set (qualified_neighbors r c k pm old False).
             (wt n = 0 \<or> 1 / 2 ^ 60 \<le> wt n) \<and> wt n \<le> 1 \<and> magnitude n \<le> 2 ^ 60"
    and "1 / 2 ^ 60 \<le> magnitude (at_px old r c)"
    and "\<exists>n\<in>set (qualified_neighbors r c k pm old False). wt n \<noteq> 0"
    and "length (qualified_neighbors r c k pm old False) \<le> 1000"
  shows "\<exists>v. interpolate_magnitude32
                (map (\<lambda>n. n\<lparr>weight := wt n\<rparr>) (qualified_neighbors r c k pm old False)) = Fin v
            \<and> magnitude (at_px old r c)
                * (1 - (2 * real (length (qualified_neighbors r c k pm old False)) + 2) / 2 ^ 24)
              \<le> v"
proof -
  define Q where "Q = qualified_neighbors r c k pm old False"
  define m0 where "m0 = magnitude (at_px old r c)"
  let ?ns = "map (\<lambda>n. n\<lparr>weight := wt n\<rparr>) Q"
  have gate: "m0 \<le> magnitude n" if "n \<in> set Q" for n
    using in_qualified_neighbors[of n r c k pm old False] that by (auto simp add: Q_def m0_def)
  have cands: "\<forall>n\<in>set ?ns. gated_candidate m0 n"
  proof
    fix n' assume "n' \<in> set ?ns"
    then obtain n where n: "n \<in> set Q" "n' = n\<lparr>weight := wt n\<rparr>" by auto
    have "(wt n = 0 \<or> 1 / 2 ^ 60 \<le> wt n) \<and> wt n \<le> 1 \<and> magnitude n \<le> 2 ^ 60"
      using assms(1) n(1) by (simp add: Q_def)
    then show "gated_candidate m0 n'" using gate[OF n(1)] n(2) by (simp add: gated_candidate_def)
  qed
  have m0: "1 / 1152921504606846976 \<le> m0" using assms(2) by (simp add: m0_def)
  have pos: "\<exists>n\<in>set ?ns. weight n \<noteq> 0" using assms(3) by (auto simp add: Q_def)
  have len: "length ?ns \<le> 1000" using assms(4) by (simp add: Q_def)
  from interpolate_magnitude32_lower[OF cands m0 pos len]
  show ?thesis by (simp add: Q_def m0_def)
qed

text \<open>The cell (0, 0) of a map of one cluster with the magnitudes 1 and 2, both weights
  \<open>1/128\<close>.\<close>

theorem C10_gated_magnitude_rounded_witness:
  "qualified_neighbors 0 0 7 pair_grid pair_grid False = [px 0 0 0 0 1, px 0 1 0 0 2]
   \<and> (1::real) / 2 ^ 60 \<le> 1 / 128 \<and> (1 / 128 :: real) \<le> 1
   \<and> magnitude (px 0 0 0 0 1) \<le> 2 ^ 60 \<and> magnitude (px 0 1 0 0 2) \<le> 2 ^ 60
   \<and> 1 / 2 ^ 60 \<le> magnitude (at_px pair_grid 0 0)
   \<and> length (qualified_neighbors 0 0 7 pair_grid pair_grid False) \<le> 1000
   \<and> (\<exists>v. interpolate_magnitude32
              (map (\<lambda>n. n\<lparr>weight := 1 / 128\<rparr>) (qualified_neighbors 0 0 7 pair_grid pair_grid False))
            = Fin v
          \<and> magnitude (at_px pair_grid 0 0)
              * (1 - (2 * real (length (qualified_neighbors 0 0 7 pair_grid pair_grid False)) + 2) / 2 ^ 24)
            \<le> v)"
proof -
  have q: "qualified_neighbors 0 0 7 pair_grid pair_grid False = [px 0 0 0 0 1, px 0 1 0 0 2]"
    by (simp add: pair_grid_def grid_eval)
  have m: "magnitude (px 0 0 0 0 1) \<le> 2 ^ 60" "magnitude (px 0 1 0 0 2) \<le> 2 ^ 60"
    by (simp_all add: px_def)
  have h1: "\<forall>n\<in>set (qualified_neighbors 0 0 7 pair_grid pair_grid False).
      ((1 / 128 :: real) = 0 \<or> 1 / 2 ^ 60 \<le> (1 / 128 :: real)) \<and> (1 / 128 :: real) \<le> 1
      \<and> magnitude n \<le> 2 ^ 60"
    unfolding q using m by simp
  have h2: "1 / 2 ^ 60 \<le> magnitude (at_px pair_grid 0 0)"
    by (simp add: pair_grid_def at_px_def px_def)
  have h3: "\<exists>n\<in>set (qualified_neighbors 0 0 7 pair_grid pair_grid False). (1 / 128 :: real) \<noteq> 0"
    unfolding q by auto
  have h4: "length (qualified_neighbors 0 0 7 pair_grid pair_grid False) \<le> 1000"
    unfolding q by simp
  from C10_gated_magnitude_rounded[of 0 0 7 pair_grid pair_grid "\<lambda>n. 1 / 128", OF h1 h2 h3 h4]
    q m h2 h4
  show ?thesis by simp
qed

text \<open>
  C10 as stated fails. In a map of one cluster whose two cells have the magnitude
  \<open>25.5300...\<close> both cells are candidates of the cell (0, 0) in a gated sweep. With the
  weights \<open>0.0079577472\<close> for the cell itself and \<open>0.0070226868\<close> for its neighbour (the
  binary32 values of the two products of Gaussians at the distances 0 and 1 under one
  colour) the mean is the binary32 number just below the magnitude: the magnitude
  decreases.
\<close>

theorem C10_counterexample:
  "qualified_neighbors 0 0 7 level_grid level_grid False
       = [px 0 0 0 0 (13385073 / 524288), px 0 1 0 0 (13385073 / 524288)]
   \<and> interpolate_magnitude32
         [(px 0 0 0 0 (13385073 / 524288))\<lparr>weight := 4272283 / 536870912\<rparr>,
          (px 0 1 0 0 (13385073 / 524288))\<lparr>weight := 15081105 / 2147483648\<rparr>]
       = Fin (836567 / 32768)
   \<and> (836567 / 32768) < magnitude (at_px level_grid 0 0)"
proof -
  have s1: "fmul rnd32 (Fin (4272283 / 536870912)) (Fin (13385073 / 524288)) = Fin (13633923 / 67108864)"
    unfolding fmul.simps rnd32_def
    by (rule round_fp_eqI[where e = "-3" and q = "-26" and n = "13633923"]) (simp_all add: pow2_def)
  have s2: "fadd rnd32 (Fin 0) (Fin (13633923 / 67108864)) = Fin (13633923 / 67108864)"
    unfolding fadd.simps rnd32_def
    by (rule round_fp_eqI[where e = "-3" and q = "-26" and n = "13633923"]) (simp_all add: pow2_def)
  have s3: "fadd rnd32 (Fin 0) (Fin (4272283 / 536870912)) = Fin (4272283 / 536870912)"
    unfolding fadd.simps rnd32_def
    by (rule round_fp_eqI[where e = "-7" and q = "-30" and n = "8544566"]) (simp_all add: pow2_def)
  have s4: "fmul rnd32 (Fin (15081105 / 2147483648)) (Fin (13385073 / 524288)) = Fin (6015947 / 33554432)"
    unfolding fmul.simps rnd32_def
    by (rule round_fp_eqI[where e = "-3" and q = "-26" and n = "12031894"]) (simp_all add: pow2_def)
  have s5: "fadd rnd32 (Fin (13633923 / 67108864)) (Fin (6015947 / 33554432)) = Fin (3208227 / 8388608)"
    unfolding fadd.simps rnd32_def
    by (rule round_fp_eqI[where e = "-2" and q = "-25" and n = "12832908"]) (simp_all add: pow2_def)
  have s6: "fadd rnd32 (Fin (4272283 / 536870912)) (Fin (15081105 / 2147483648)) = Fin (8042559 / 536870912)"
    unfolding fadd.simps rnd32_def
    by (rule round_fp_eqI[where e = "-7" and q = "-30" and n = "16085118"]) (simp_all add: pow2_def)
  have s7: "fdiv rnd32 (Fin (3208227 / 8388608)) (Fin (8042559 / 536870912)) = Fin (836567 / 32768)"
    proof -
      have "rnd32 ((3208227 / 8388608) / (8042559 / 536870912)) = Fin (836567 / 32768)"
        unfolding rnd32_def
        by (rule round_fp_eqI[where e = "4" and q = "-19" and n = "13385072"]) (simp_all add: pow2_def)
      then show ?thesis by (simp add: fdiv.simps)
    qed
  have q: "qualified_neighbors 0 0 7 level_grid level_grid False
       = [px 0 0 0 0 (13385073 / 524288), px 0 1 0 0 (13385073 / 524288)]"
    by (simp add: level_grid_def grid_eval)
  have mean: "interpolate_magnitude32
         [(px 0 0 0 0 (13385073 / 524288))\<lparr>weight := 4272283 / 536870912\<rparr>,
          (px 0 1 0 0 (13385073 / 524288))\<lparr>weight := 15081105 / 2147483648\<rparr>]
       = Fin (836567 / 32768)"
    by (simp add: interpolate_magnitude32_def px_def s1 s2 s3 s4 s5 s6 s7)
  have "(836567 / 32768) < magnitude (at_px level_grid 0 0)"
    by (simp add: level_grid_def at_px_def px_def)
  then show ?thesis using q mean by simp
qed

end
